theory Spec2Isabelle
  imports Main
begin

section \<open>Constants and the token record\<close>

text \<open>
  The program \<^verbatim>\<open>oneBadApple.c\<close> arranges \<open>k\<close> processes in a ring of pipes and lets
  one record, the apple, circulate. The C \<^verbatim>\<open>int\<close> fields never take part in arithmetic
  that could overflow (all values lie in \<open>[-1, 64]\<close>), so they are modelled as \<open>int\<close>.
  The payload \<^verbatim>\<open>char text[MAX_TEXT]\<close> is the whole byte array, since the array (not
  only the string in it) is what travels through the pipes.
\<close>

definition MAX_K :: int where
  "MAX_K = 64"

definition MAX_TEXT :: nat where
  "MAX_TEXT = 1024"

definition DEST_EMPTY :: int where
  "DEST_EMPTY = - 1"

abbreviation NUL :: char where
  "NUL \<equiv> CHR 0x00"

abbreviation NL :: char where
  "NL \<equiv> CHR 0x0A"

record apple =
  dest :: int
  origin :: int
  text' :: string

text \<open>\<^verbatim>\<open>sizeof(apple_t)\<close>: two 4-byte ints and the text array.\<close>

definition sizeof_apple :: nat where
  "sizeof_apple = 4 + 4 + MAX_TEXT"

section \<open>The C library functions the program calls\<close>

text \<open>The string held in a byte buffer: the bytes before the first NUL.\<close>

definition cstr :: "string \<Rightarrow> string" where
  "cstr buf = takeWhile (\<lambda>c. c \<noteq> NUL) buf"

text \<open>\<^verbatim>\<open>isspace\<close> and \<^verbatim>\<open>isdigit\<close> in the C locale.\<close>

definition isspace :: "char \<Rightarrow> bool" where
  "isspace c = (c = CHR 0x20 \<or> c = CHR 0x09 \<or> c = CHR 0x0A \<or> c = CHR 0x0B
                \<or> c = CHR 0x0C \<or> c = CHR 0x0D)"

definition isdigit :: "char \<Rightarrow> bool" where
  "isdigit c = (48 \<le> (of_char c :: nat) \<and> (of_char c :: nat) \<le> 57)"

definition digit_val :: "char \<Rightarrow> int" where
  "digit_val c = int (of_char c) - 48"

text \<open>The value of a digit string, most significant digit first.\<close>

fun decimal :: "int \<Rightarrow> string \<Rightarrow> int" where
  "decimal acc [] = acc"
| "decimal acc (c # cs) = decimal (10 * acc + digit_val c) cs"

definition LONG_MAX :: int where
  "LONG_MAX = 2 ^ 63 - 1"

definition LONG_MIN :: int where
  "LONG_MIN = - (2 ^ 63)"

text \<open>
  \<^verbatim>\<open>strtol(s, &end, 10)\<close> on the string \<open>s\<close>: white space is skipped, one optional sign
  is read, then the longest run of digits. The result is the value (clamped to the range
  of \<^verbatim>\<open>long\<close>) and the offset \<open>end - s\<close>; with no digit, no conversion is performed and
  \<open>end = s\<close>.
\<close>

definition strtol :: "string \<Rightarrow> int \<times> nat" where
  "strtol s =
     (let ws = takeWhile isspace s;
          r = dropWhile isspace s;
          neg = (r \<noteq> [] \<and> hd r = CHR ''-'');
          signed = (r \<noteq> [] \<and> (hd r = CHR ''-'' \<or> hd r = CHR ''+''));
          r' = (if signed then tl r else r);
          ds = takeWhile isdigit r';
          v = (if neg then - decimal 0 ds else decimal 0 ds)
      in if ds = [] then (0, 0)
         else (max LONG_MIN (min LONG_MAX v),
               length ws + (if signed then 1 else 0) + length ds))"

text \<open>
  \<^verbatim>\<open>fgets(buf, n, stdin)\<close>: the console input is the list of bytes not yet read, and
  its end is end-of-file. At most \<open>n - 1\<close> bytes are read, stopping after a newline.
  \<open>None\<close> is the \<^verbatim>\<open>NULL\<close> that \<^verbatim>\<open>fgets\<close> returns when no byte could be read.
\<close>

fun read_line :: "nat \<Rightarrow> string \<Rightarrow> string" where
  "read_line 0 inp = []"
| "read_line (Suc m) [] = []"
| "read_line (Suc m) (c # cs) = (if c = NL then [c] else c # read_line m cs)"

definition fgets :: "nat \<Rightarrow> string \<Rightarrow> (string \<times> string) option" where
  "fgets n inp =
     (if inp = [] then None
      else let l = read_line (n - 1) inp in Some (l, drop (length l) inp))"

text \<open>
  \<^verbatim>\<open>strncpy(dst, src, n)\<close> for a string \<open>src\<close>: at most \<open>n\<close> bytes are copied and the
  rest of the first \<open>n\<close> bytes of \<open>dst\<close> is filled with NUL.
\<close>

definition strncpy :: "string \<Rightarrow> string \<Rightarrow> nat \<Rightarrow> string" where
  "strncpy dst src n = take n src @ replicate (n - length src) NUL @ drop n dst"

section \<open>Helpers of the program\<close>

text \<open>\<^verbatim>\<open>chomp\<close>: drop one trailing newline.\<close>

definition chomp :: "string \<Rightarrow> string" where
  "chomp s = (if s \<noteq> [] \<and> last s = NL then butlast s else s)"

text \<open>\<^verbatim>\<open>parse_destination\<close>: \<open>None\<close> is the return value \<open>-1\<close>, \<open>Some v\<close> is \<open>0\<close> with \<open>*out = v\<close>.\<close>

definition parse_destination :: "string \<Rightarrow> int \<Rightarrow> int option" where
  "parse_destination s k =
     (case strtol s of (v, e) \<Rightarrow>
        if e = 0 \<or> e \<noteq> length s then None
        else if v < 0 \<or> v \<ge> k then None
        else Some v)"

section \<open>One pass of the node loop\<close>

text \<open>
  The two ends of pipe \<open>j\<close>: \<^verbatim>\<open>pipes[j][0]\<close> is \<open>Pipe_rd j\<close> and \<^verbatim>\<open>pipes[j][1]\<close> is
  \<open>Pipe_wr j\<close>. An event is what a process prints or does to the outside. The process id
  that the program prints beside the node id is left out of the log events.
\<close>

datatype fd = Pipe_rd int | Pipe_wr int

datatype event =
    Log_invalid_k
  | Log_returned_empty int
  | Prompt_destination int
  | Log_invalid_destination string
  | Prompt_message
  | Log_injecting int int string
  | Log_received_empty int
  | Log_received_message int int string
  | Log_processed int
  | Log_forwarding int int
  | Log_exiting int
  | Log_caught_ctrl_c
  | Sys_pipe int
  | Sys_fork int int
  | Wrote apple
  | Kill_SIGUSR1 int
  | Close fd
  | Reaped int
  | Exit_process int

datatype step = Send apple | Raise_SIGINT

text \<open>
  The body of the \<^verbatim>\<open>while\<close> loop of \<^verbatim>\<open>node_loop\<close> between the read of the apple and
  the write of it: what is printed, what is done next (the apple to write, or
  \<^verbatim>\<open>raise(SIGINT)\<close>), and the console input left.
\<close>

definition node_dispatch :: "int \<Rightarrow> int \<Rightarrow> apple \<Rightarrow> string \<Rightarrow> event list \<times> step \<times> string" where
  "node_dispatch my_id g_k a inp =
     (if dest a = DEST_EMPTY then
        if my_id = 0 then
          (case fgets 64 inp of
             None \<Rightarrow>
               ([Log_returned_empty my_id, Prompt_destination (g_k - 1)],
                Send (a\<lparr>dest := DEST_EMPTY\<rparr>), inp)
           | Some (l, inp1) \<Rightarrow>
               let dest_buf = chomp (cstr l) in
               if dest_buf = ''q'' \<or> dest_buf = ''Q'' then
                 ([Log_returned_empty my_id, Prompt_destination (g_k - 1)], Raise_SIGINT, inp1)
               else
                 (case parse_destination dest_buf g_k of
                    None \<Rightarrow>
                      ([Log_returned_empty my_id, Prompt_destination (g_k - 1),
                        Log_invalid_destination dest_buf],
                       Send a, inp1)
                  | Some d \<Rightarrow>
                      let (l2, inp2) = (case fgets MAX_TEXT inp1 of
                                          None \<Rightarrow> ([], inp1)
                                        | Some (l2, r) \<Rightarrow> (l2, r));
                          text_buf = chomp (cstr l2);
                          a' = a\<lparr>dest := d, origin := my_id,
                                 text' := (strncpy (text' a) text_buf (MAX_TEXT - 1))
                                           [MAX_TEXT - 1 := NUL]\<rparr>
                      in ([Log_returned_empty my_id, Prompt_destination (g_k - 1),
                           Prompt_message, Log_injecting my_id (dest a') (cstr (text' a'))],
                          Send a', inp2)))
        else ([Log_received_empty my_id], Send a, inp)
      else if dest a = my_id then
        ([Log_received_message my_id (origin a) (cstr (text' a)), Log_processed my_id],
         Send (a\<lparr>dest := DEST_EMPTY, origin := my_id, text' := (text' a)[0 := NUL]\<rparr>), inp)
      else ([Log_forwarding my_id (dest a)], Send a, inp))"

section \<open>The ring: the apple handed from node to node\<close>

text \<open>
  C's \<^verbatim>\<open>%\<close> truncates towards zero. Node \<open>i\<close> reads from \<^verbatim>\<open>pipes[(i - 1 + k) % k]\<close> and
  writes to \<^verbatim>\<open>pipes[i]\<close>, so what node \<open>i\<close> writes is read by node \<open>(i + 1) mod k\<close>, its
  \<open>next_node\<close> (the wiring is the subject of claim C8).
\<close>

definition c_rem :: "int \<Rightarrow> int \<Rightarrow> int" where
  "c_rem a b = sgn a * (\<bar>a\<bar> mod \<bar>b\<bar>)"

definition next_node :: "int \<Rightarrow> int \<Rightarrow> int" where
  "next_node k i = (i + 1) mod k"

text \<open>
  The state of a ring whose pipes work and that no signal reaches: the node that reads
  the apple next, the apple in its inbound pipe, and the console input of node 0.
\<close>

record ring =
  holder :: int
  token :: apple
  console :: string

text \<open>
  One hop: the holder runs one pass of its loop and writes the apple to its successor.
  \<open>None\<close>: node 0 raised \<^verbatim>\<open>SIGINT\<close> and the ring shuts down.
\<close>

definition ring_step :: "int \<Rightarrow> ring \<Rightarrow> (event list \<times> ring) option" where
  "ring_step k r =
     (case node_dispatch (holder r) k (token r) (console r) of
        (evs, Raise_SIGINT, inp') \<Rightarrow> None
      | (evs, Send a', inp') \<Rightarrow>
          Some (evs, \<lparr>holder = next_node k (holder r), token = a', console = inp'\<rparr>))"

text \<open>The origin and text a node reports when it receives a message addressed to it.\<close>

fun delivery_report :: "event list \<Rightarrow> (int \<times> string) option" where
  "delivery_report (Log_received_message n og t # evs) = Some (og, t)"
| "delivery_report evs = None"

text \<open>
  The hops until a node reports a delivery, counted from \<open>n\<close>: \<open>Some (Inr (hops, node,
  origin, text, ring after))\<close> at the delivery, \<open>Some (Inl ())\<close> when the ring shuts down
  first, and no value when the apple circulates for ever.
\<close>

partial_function (option) hops_to_delivery ::
    "int \<Rightarrow> ring \<Rightarrow> nat \<Rightarrow> (unit + nat \<times> int \<times> int \<times> string \<times> ring) option" where
  "hops_to_delivery k r n =
     (case ring_step k r of
        None \<Rightarrow> Some (Inl ())
      | Some (evs, r') \<Rightarrow>
          (case delivery_report evs of
             Some (og, t) \<Rightarrow> Some (Inr (n, holder r, og, t, r'))
           | None \<Rightarrow> hops_to_delivery k r' (Suc n)))"

declare hops_to_delivery.simps [code]


section \<open>Moving one record through a pipe\<close>

text \<open>
  What one \<^verbatim>\<open>read\<close> or \<^verbatim>\<open>write\<close> call returns: a byte count, or \<open>-1\<close> with an
  \<^verbatim>\<open>errno\<close>. The environment of a process is the list of the results of its calls, each
  with a flag telling whether the \<^verbatim>\<open>SIGUSR1\<close> handler ran before the call returned
  (the handler sets \<^verbatim>\<open>stop_requested\<close>). A list that ends while bytes are still to be
  moved is a process blocked for ever: the result is \<open>None\<close>.
\<close>

datatype errno = EINTR | EPIPE | EBADF | EIO

datatype sysret = Ret nat | Err errno

type_synonym syscall = "bool \<times> sysret"

text \<open>\<^verbatim>\<open>left -= (size_t)w\<close> on a 64-bit \<^verbatim>\<open>size_t\<close>.\<close>

definition size_sub :: "nat \<Rightarrow> nat \<Rightarrow> nat" where
  "size_sub left w = (if w \<le> left then left - w else (left + 2 ^ 64 - w) mod 2 ^ 64)"

text \<open>
  \<^verbatim>\<open>write_full\<close> and \<^verbatim>\<open>read_full\<close>: the calls not yet answered, \<^verbatim>\<open>stop_requested\<close>
  and the bytes left to move; the result is the return value, \<^verbatim>\<open>stop_requested\<close> and
  the calls left.
\<close>

fun write_full :: "syscall list \<Rightarrow> bool \<Rightarrow> nat \<Rightarrow> (int \<times> bool \<times> syscall list) option" where
  "write_full [] stop left = (if left = 0 then Some (0, stop, []) else None)"
| "write_full ((usr1, w) # rest) stop left =
     (if left = 0 then Some (0, stop, (usr1, w) # rest)
      else case w of
             Err e \<Rightarrow>
               if e = EINTR then write_full rest (stop \<or> usr1) left
               else Some (- 1, stop \<or> usr1, rest)
           | Ret n \<Rightarrow> write_full rest (stop \<or> usr1) (size_sub left n))"

fun read_full :: "syscall list \<Rightarrow> bool \<Rightarrow> nat \<Rightarrow> (int \<times> bool \<times> syscall list) option" where
  "read_full [] stop left = (if left = 0 then Some (0, stop, []) else None)"
| "read_full ((usr1, r) # rest) stop left =
     (if left = 0 then Some (0, stop, (usr1, r) # rest)
      else case r of
             Err e \<Rightarrow>
               if e = EINTR then
                 (if stop \<or> usr1 then Some (- 1, stop \<or> usr1, rest)
                  else read_full rest (stop \<or> usr1) left)
               else Some (- 1, stop \<or> usr1, rest)
           | Ret n \<Rightarrow>
               if n = 0 then Some (- 1, stop \<or> usr1, rest)
               else read_full rest (stop \<or> usr1) (size_sub left n))"

text \<open>
  Two notions to speak about the environment: a call that the loops answer by calling
  again (some bytes moved, or \<^verbatim>\<open>EINTR\<close>; no \<^verbatim>\<open>SIGUSR1\<close>), and the bytes that a list
  of calls moves.
\<close>

fun retried :: "syscall \<Rightarrow> bool" where
  "retried (usr1, Ret n) = (\<not> usr1 \<and> 0 < n)"
| "retried (usr1, Err e) = (\<not> usr1 \<and> e = EINTR)"

fun moved :: "syscall list \<Rightarrow> nat" where
  "moved [] = 0"
| "moved ((usr1, Ret n) # cs) = n + moved cs"
| "moved ((usr1, Err e) # cs) = moved cs"

section \<open>A node process\<close>

text \<open>The globals of one process, and the console input it has not read yet.\<close>

record proc =
  my_id :: int
  g_k :: int
  stop_requested :: bool
  child_pids :: "int list"
  read_fd :: "fd option"
  write_fd :: "fd option"
  open_fds :: "fd list"
  stdin :: string

text \<open>
  What the environment does during one pass of the loop of \<^verbatim>\<open>node_loop\<close>: whether
  \<^verbatim>\<open>SIGUSR1\<close> arrives before the loop condition is tested, the results of the
  \<^verbatim>\<open>read\<close> calls, the record they deliver, and the results of the \<^verbatim>\<open>write\<close> calls.
\<close>

record pass_env =
  usr1_before :: bool
  reads :: "syscall list"
  incoming :: apple
  writes :: "syscall list"

text \<open>The end of \<^verbatim>\<open>node_loop\<close>, after the loop is left.\<close>

definition graceful_exit :: "proc \<Rightarrow> event list" where
  "graceful_exit p =
     [Log_exiting (my_id p)]
     @ (case read_fd p of Some f \<Rightarrow> [Close f] | None \<Rightarrow> [])
     @ (case write_fd p of Some f \<Rightarrow> [Close f] | None \<Rightarrow> [])
     @ [Exit_process 0]"

text \<open>
  \<^verbatim>\<open>while (wait(NULL) > 0) {}\<close> over the results of the successive \<^verbatim>\<open>wait\<close> calls:
  the children reaped, and whether the loop was left.
\<close>

fun reap :: "int list \<Rightarrow> event list \<times> bool" where
  "reap [] = ([], False)"
| "reap (w # ws) =
     (if w > 0 then (case reap ws of (evs, left) \<Rightarrow> (Reaped w # evs, left))
      else ([], True))"

text \<open>\<^verbatim>\<open>sigint_parent_handler\<close>; it ends the process and never returns.\<close>

definition sigint_parent_handler :: "proc \<Rightarrow> int list \<Rightarrow> event list" where
  "sigint_parent_handler p waits =
     [Log_caught_ctrl_c]
     @ map Kill_SIGUSR1 (filter (\<lambda>pid. pid > 0) (child_pids p))
     @ (case read_fd p of Some f \<Rightarrow> [Close f] | None \<Rightarrow> [])
     @ (case write_fd p of Some f \<Rightarrow> [Close f] | None \<Rightarrow> [])
     @ (case reap waits of (evs, left) \<Rightarrow> evs @ (if left then [Exit_process 0] else []))"

text \<open>
  \<^verbatim>\<open>node_loop\<close>: everything the process prints and does, in order. A trace without
  \<open>Exit_process\<close> is a process that blocks for ever.
\<close>

fun node_loop :: "proc \<Rightarrow> int list \<Rightarrow> pass_env list \<Rightarrow> event list" where
  "node_loop p waits [] = (if stop_requested p then graceful_exit p else [])"
| "node_loop p waits (e # es) =
     (if stop_requested p \<or> usr1_before e then graceful_exit p
      else case read_full (reads e) False sizeof_apple of
             None \<Rightarrow> []
           | Some (r, stop1, rs) \<Rightarrow>
               if r < 0 then graceful_exit p
               else (case node_dispatch (my_id p) (g_k p) (incoming e) (stdin p) of
                       (evs, Raise_SIGINT, inp') \<Rightarrow> evs @ sigint_parent_handler p waits
                     | (evs, Send a', inp') \<Rightarrow>
                         (case write_full (writes e) stop1 sizeof_apple of
                            None \<Rightarrow> evs
                          | Some (w, stop2, ws) \<Rightarrow>
                              if w < 0 then evs @ graceful_exit p
                              else evs @ [Wrote a']
                                   @ node_loop (p\<lparr>stop_requested := stop2, stdin := inp'\<rparr>)
                                       waits es)))"

section \<open>Startup: the ring size, the pipes and the processes\<close>

definition INT_MAX :: int where
  "INT_MAX = 2 ^ 31 - 1"

definition INT_MIN :: int where
  "INT_MIN = - (2 ^ 31)"

text \<open>The conversion \<^verbatim>\<open>(int)\<close> of a \<^verbatim>\<open>long\<close>: the low 32 bits, read as two's complement.\<close>

definition to_int :: "int \<Rightarrow> int" where
  "to_int v = (v + 2 ^ 31) mod 2 ^ 32 - 2 ^ 31"

text \<open>
  \<^verbatim>\<open>scanf("%d", &k)\<close>: white space is skipped; at the end of the input the result is
  \<^verbatim>\<open>EOF\<close>; with no digit after the optional sign nothing is converted (the result is
  0); otherwise the result is 1, the digits are read up to the first character that is
  not a digit, and the value is stored. C leaves the stored value undefined when no
  \<^verbatim>\<open>int\<close> holds the number; the C library of the build the source documents (gcc on
  Linux) converts the digits as \<^verbatim>\<open>strtol\<close> does and stores that \<^verbatim>\<open>long\<close> converted
  to \<^verbatim>\<open>int\<close>, and this is what the model does.
\<close>

datatype scan = Scan_EOF | Scan_mismatch | Scan_int int

definition scanf_d :: "string \<Rightarrow> scan \<times> string" where
  "scanf_d inp =
     (let r = dropWhile isspace inp in
      if r = [] then (Scan_EOF, [])
      else
        let neg = (hd r = CHR ''-'');
            signed = (hd r = CHR ''-'' \<or> hd r = CHR ''+'');
            r' = (if signed then tl r else r);
            ds = takeWhile isdigit r';
            v = (if neg then - decimal 0 ds else decimal 0 ds)
        in if ds = [] then (Scan_mismatch, r')
           else (Scan_int (to_int (max LONG_MIN (min LONG_MAX v))), dropWhile isdigit r'))"

text \<open>\<^verbatim>\<open>while ((c = getchar()) != '\n' && c != EOF) {}\<close>\<close>

definition skip_line :: "string \<Rightarrow> string" where
  "skip_line inp = drop 1 (dropWhile (\<lambda>c. c \<noteq> NL) inp)"

text \<open>All the pipe ends a process holds once the \<open>k\<close> pipes are made.\<close>

definition all_pipes :: "int \<Rightarrow> fd list" where
  "all_pipes k = concat (map (\<lambda>j. [Pipe_rd j, Pipe_wr j]) [0..k - 1])"

definition close_fd :: "fd \<Rightarrow> fd list \<Rightarrow> fd list" where
  "close_fd f fds = removeAll f fds"

text \<open>The loop in which child \<open>i\<close> closes the ends it does not use.\<close>

definition child_close_unused :: "int \<Rightarrow> int \<Rightarrow> fd list \<Rightarrow> fd list" where
  "child_close_unused k i fds =
     foldl (\<lambda>fds j.
              let fds1 = (if j = c_rem (i - 1 + k) k then fds else close_fd (Pipe_rd j) fds)
              in if j = i then fds1 else close_fd (Pipe_wr j) fds1)
       fds [0..k - 1]"

text \<open>The same loop of the parent, node 0.\<close>

definition parent_close_unused :: "int \<Rightarrow> fd list \<Rightarrow> fd list" where
  "parent_close_unused k fds =
     foldl (\<lambda>fds j.
              let fds1 = (if j \<noteq> k - 1 then close_fd (Pipe_rd j) fds else fds)
              in if j \<noteq> 0 then close_fd (Pipe_wr j) fds1 else fds1)
       fds [0..k - 1]"

text \<open>
  The loop that makes the pipes: \<open>pipe_ok j\<close> tells whether \<^verbatim>\<open>pipe(pipes[j])\<close> succeeds.
  The result is the calls that succeeded and whether all did.
\<close>

fun make_pipes :: "(int \<Rightarrow> bool) \<Rightarrow> int list \<Rightarrow> event list \<times> bool" where
  "make_pipes pipe_ok [] = ([], True)"
| "make_pipes pipe_ok (j # js) =
     (if pipe_ok j then (case make_pipes pipe_ok js of (evs, ok) \<Rightarrow> (Sys_pipe j # evs, ok))
      else ([], False))"

text \<open>
  The loop that forks the children: \<open>fork_ret i\<close> is what \<^verbatim>\<open>fork\<close> returns in the
  parent for child \<open>i\<close>. Child \<open>i\<close> starts with the globals of the parent at that moment
  (\<open>pids\<close> is \<^verbatim>\<open>child_pids\<close> so far) and sets its own. The result is the calls that
  succeeded, the children, and \<^verbatim>\<open>child_pids\<close> (\<open>None\<close> when a \<^verbatim>\<open>fork\<close> failed).
\<close>

fun fork_children ::
    "(int \<Rightarrow> int) \<Rightarrow> int \<Rightarrow> string \<Rightarrow> int list \<Rightarrow> int list
      \<Rightarrow> event list \<times> proc list \<times> int list option" where
  "fork_children fork_ret k inp pids [] = ([], [], Some pids)"
| "fork_children fork_ret k inp pids (i # is) =
     (if fork_ret i < 0 then ([], [], None)
      else
        let child = \<lparr>my_id = i, g_k = k, stop_requested = False, child_pids = pids,
                     read_fd = Some (Pipe_rd (c_rem (i - 1 + k) k)),
                     write_fd = Some (Pipe_wr i),
                     open_fds = child_close_unused k i (all_pipes k),
                     stdin = inp\<rparr>
        in case fork_children fork_ret k inp (pids @ [fork_ret i]) is of
             (evs, cs, r) \<Rightarrow> (Sys_fork i (fork_ret i) # evs, child # cs, r))"

text \<open>
  \<^verbatim>\<open>main\<close> up to the point where the ring is wired: either the process has returned
  with an exit code, or the ring is up with node 0 (the parent) and the children.
\<close>

datatype startup = Returned int | Ring_up proc "proc list"

definition main_startup ::
    "string \<Rightarrow> (int \<Rightarrow> bool) \<Rightarrow> (int \<Rightarrow> int) \<Rightarrow> event list \<times> startup" where
  "main_startup inp pipe_ok fork_ret =
     (case scanf_d inp of
        (Scan_EOF, inp1) \<Rightarrow> ([Log_invalid_k], Returned 1)
      | (Scan_mismatch, inp1) \<Rightarrow> ([Log_invalid_k], Returned 1)
      | (Scan_int k, inp1) \<Rightarrow>
          if k < 2 \<or> k > MAX_K then ([Log_invalid_k], Returned 1)
          else
            let inp2 = skip_line inp1 in
            (case make_pipes pipe_ok [0..k - 1] of
               (pevs, False) \<Rightarrow> (pevs, Returned 1)
             | (pevs, True) \<Rightarrow>
                 (case fork_children fork_ret k inp2 [] [1..k - 1] of
                    (fevs, cs, None) \<Rightarrow> (pevs @ fevs, Returned 1)
                  | (fevs, cs, Some pids) \<Rightarrow>
                      (pevs @ fevs,
                       Ring_up \<lparr>my_id = 0, g_k = k, stop_requested = False, child_pids = pids,
                                read_fd = Some (Pipe_rd (c_rem (0 - 1 + k) k)),
                                write_fd = Some (Pipe_wr 0),
                                open_fds = parent_close_unused k (all_pipes k),
                                stdin = inp2\<rparr> cs))))"

text \<open>The processes of the ring once it is up: node 0 first.\<close>

fun processes :: "startup \<Rightarrow> proc list" where
  "processes (Ring_up p cs) = p # cs"
| "processes other = []"

text \<open>The apple that \<^verbatim>\<open>main\<close> writes into the ring once it is wired.\<close>

definition seed :: apple where
  "seed = \<lparr>dest = DEST_EMPTY, origin = 0, text' = replicate MAX_TEXT NUL\<rparr>"

section \<open>The destination strings of the specification\<close>

text \<open>
  The strings the specification calls valid destinations for a ring of \<open>k\<close> nodes, in
  its own words: optional white space, an optional sign, at least one digit and nothing
  after the digits, with a value \<open>d\<close> in \<open>[0, k)\<close>.
\<close>

definition destination_syntax :: "string \<Rightarrow> int \<Rightarrow> int \<Rightarrow> bool" where
  "destination_syntax s k d =
     (\<exists>ws sg ds. s = ws @ sg @ ds \<and> (\<forall>c\<in>set ws. isspace c)
        \<and> (sg = [] \<or> sg = ''+'' \<or> sg = ''-'') \<and> ds \<noteq> [] \<and> (\<forall>c\<in>set ds. isdigit c)
        \<and> d = (if sg = ''-'' then - decimal 0 ds else decimal 0 ds) \<and> 0 \<le> d \<and> d < k)"

text \<open>
  The wiring the specification asks of the \<open>k\<close> processes \<open>ps\<close>, in its own words: they
  are the nodes \<open>0, \<dots>, k - 1\<close>; each holds exactly two open pipe ends, the read end of the
  edge of its predecessor and the write end of its own edge; edge \<open>j\<close> is written only by
  node \<open>j\<close> and read only by node \<open>(j + 1) mod k\<close>, which is \<open>next_node k j\<close>; and no
  process holds both ends of one edge.
\<close>

definition ring_wired :: "int \<Rightarrow> proc list \<Rightarrow> bool" where
  "ring_wired k ps \<longleftrightarrow>
     map my_id ps = [0..k - 1]
     \<and> (\<forall>q\<in>set ps.
          read_fd q = Some (Pipe_rd ((my_id q - 1) mod k))
          \<and> write_fd q = Some (Pipe_wr (my_id q))
          \<and> distinct (open_fds q)
          \<and> set (open_fds q) = {Pipe_rd ((my_id q - 1) mod k), Pipe_wr (my_id q)}
          \<and> (\<forall>j\<in>set [0..k - 1].
               (Pipe_wr j \<in> set (open_fds q) \<longleftrightarrow> my_id q = j)
               \<and> (Pipe_rd j \<in> set (open_fds q) \<longleftrightarrow> my_id q = next_node k j)
               \<and> \<not> (Pipe_rd j \<in> set (open_fds q) \<and> Pipe_wr j \<in> set (open_fds q))))"

section \<open>Facts about \<^verbatim>\<open>strtol\<close> and \<^verbatim>\<open>parse_destination\<close>\<close>

lemma takeWhile_prefix_stop:
  "\<forall>c\<in>set ws. P c \<Longrightarrow> xs = [] \<or> \<not> P (hd xs) \<Longrightarrow> takeWhile P (ws @ xs) = ws"
  by (cases xs) (auto simp: takeWhile_append)

lemma dropWhile_prefix_stop:
  "\<forall>c\<in>set ws. P c \<Longrightarrow> xs = [] \<or> \<not> P (hd xs) \<Longrightarrow> dropWhile P (ws @ xs) = xs"
  by (cases xs) (auto simp: dropWhile_append)

lemma isdigit_not_isspace: "isdigit c \<Longrightarrow> \<not> isspace c"
  by (auto simp: isdigit_def isspace_def)

lemma isdigit_not_sign: "isdigit c \<Longrightarrow> c \<noteq> CHR ''-'' \<and> c \<noteq> CHR ''+''"
  by (auto simp: isdigit_def)

lemma sign_not_isspace: "\<not> isspace (CHR ''-'')" "\<not> isspace (CHR ''+'')"
  by (simp_all add: isspace_def)

lemma strtol_unsigned:
  assumes ws: "\<forall>c\<in>set ws. isspace c" and ds: "\<forall>c\<in>set ds. isdigit c" and ne: "ds \<noteq> []"
    and stop: "t = [] \<or> \<not> isdigit (hd t)"
  shows "strtol (ws @ ds @ t) = (max LONG_MIN (min LONG_MAX (decimal 0 ds)), length ws + length ds)"
proof -
  from ne obtain d ds' where dd: "ds = d # ds'" by (cases ds) auto
  with ds have d: "isdigit d" by simp
  have r: "dropWhile isspace (ws @ ds @ t) = ds @ t" "takeWhile isspace (ws @ ds @ t) = ws"
    using ws d dd by (simp_all add: dropWhile_prefix_stop takeWhile_prefix_stop isdigit_not_isspace)
  have t: "takeWhile isdigit (ds @ t) = ds"
    using ds stop by (rule takeWhile_prefix_stop)
  have hd: "hd (ds @ t) = d" "ds @ t \<noteq> []" using dd by simp_all
  show ?thesis
    unfolding strtol_def r Let_def using isdigit_not_sign[OF d] ne
    by (simp add: hd t)
qed

lemma strtol_signed:
  assumes ws: "\<forall>c\<in>set ws. isspace c" and ds: "\<forall>c\<in>set ds. isdigit c"
    and sg: "c = CHR ''-'' \<or> c = CHR ''+''"
    and stop: "t = [] \<or> \<not> isdigit (hd t)"
  shows "strtol (ws @ c # ds @ t) =
     (if ds = [] then (0, 0)
      else (max LONG_MIN (min LONG_MAX (if c = CHR ''-'' then - decimal 0 ds else decimal 0 ds)),
            length ws + 1 + length ds))"
proof -
  have nsp: "\<not> isspace c" using sg sign_not_isspace by auto
  have r: "dropWhile isspace (ws @ c # ds @ t) = c # ds @ t"
          "takeWhile isspace (ws @ c # ds @ t) = ws"
    using ws nsp by (simp_all add: dropWhile_prefix_stop takeWhile_prefix_stop)
  have t: "takeWhile isdigit (ds @ t) = ds"
    using ds stop by (rule takeWhile_prefix_stop)
  show ?thesis
    unfolding strtol_def r Let_def using sg
    by (auto simp: t)
qed

lemma strtol_no_digits:
  assumes ws: "\<forall>c\<in>set ws. isspace c"
    and stop: "t = [] \<or> (\<not> isdigit (hd t) \<and> \<not> isspace (hd t) \<and> hd t \<noteq> CHR ''-'' \<and> hd t \<noteq> CHR ''+'')"
  shows "strtol (ws @ t) = (0, 0)"
proof -
  have "t = [] \<or> \<not> isspace (hd t)" using stop by blast
  with ws have r: "dropWhile isspace (ws @ t) = t"
    by (rule dropWhile_prefix_stop)
  have t: "takeWhile isdigit t = []"
    using stop by (cases t) auto
  show ?thesis
    unfolding strtol_def r Let_def using stop
    by (auto simp: t)
qed

lemma strtol_consumed:
  assumes "strtol s = (v, e)" and "e \<noteq> 0"
  shows "\<exists>ws sg ds. s = ws @ sg @ ds @ drop e s \<and> (\<forall>c\<in>set ws. isspace c)
           \<and> (sg = [] \<or> sg = ''+'' \<or> sg = ''-'') \<and> ds \<noteq> [] \<and> (\<forall>c\<in>set ds. isdigit c)
           \<and> e = length ws + length sg + length ds
           \<and> v = max LONG_MIN (min LONG_MAX (if sg = ''-'' then - decimal 0 ds else decimal 0 ds))"
proof -
  define ws where "ws = takeWhile isspace s"
  define r where "r = dropWhile isspace s"
  define signed where "signed = (r \<noteq> [] \<and> (hd r = CHR ''-'' \<or> hd r = CHR ''+''))"
  define sg where "sg = (if signed then [hd r] else [])"
  define r' where "r' = (if signed then tl r else r)"
  define ds where "ds = takeWhile isdigit r'"
  have s: "s = ws @ r" by (simp add: ws_def r_def)
  have rr: "r = sg @ r'" by (auto simp: sg_def r'_def signed_def)
  have r's: "r' = ds @ dropWhile isdigit r'" by (simp add: ds_def)
  have ne: "ds \<noteq> []" using assms
    by (auto simp: strtol_def Let_def ds_def r'_def signed_def r_def split: if_splits)
  have e: "e = length ws + length sg + length ds" using assms ne
    by (auto simp: strtol_def Let_def ds_def r'_def signed_def r_def sg_def ws_def split: if_splits)
  have v: "v = max LONG_MIN (min LONG_MAX (if sg = ''-'' then - decimal 0 ds else decimal 0 ds))"
    using assms ne
    by (auto simp: strtol_def Let_def ds_def r'_def signed_def r_def sg_def ws_def split: if_splits)
  have dr: "drop e s = dropWhile isdigit r'"
  proof -
    have "s = (ws @ sg @ ds) @ dropWhile isdigit r'" using s rr r's by simp
    then have "drop (length (ws @ sg @ ds)) s = dropWhile isdigit r'"
      by (metis append_eq_conv_conj)
    then show ?thesis using e by (simp add: add.assoc)
  qed
  have "s = ws @ sg @ ds @ drop e s" using s rr r's dr by simp
  moreover have "\<forall>c\<in>set ws. isspace c" unfolding ws_def by (auto dest: set_takeWhileD)
  moreover have "sg = [] \<or> sg = ''+'' \<or> sg = ''-''" by (auto simp: sg_def signed_def)
  moreover have "\<forall>c\<in>set ds. isdigit c" unfolding ds_def by (auto dest: set_takeWhileD)
  ultimately show ?thesis using ne e v by blast
qed

lemma clamp_long_in_range:
  "0 \<le> x \<Longrightarrow> x < k \<Longrightarrow> k \<le> LONG_MAX \<Longrightarrow> max LONG_MIN (min LONG_MAX x) = x"
  by (simp add: LONG_MIN_def LONG_MAX_def)

lemma clamp_long_range_back:
  "0 \<le> max LONG_MIN (min LONG_MAX x) \<Longrightarrow> max LONG_MIN (min LONG_MAX x) < k \<Longrightarrow> k \<le> LONG_MAX
     \<Longrightarrow> max LONG_MIN (min LONG_MAX x) = x"
  by (simp add: LONG_MIN_def LONG_MAX_def max_def min_def split: if_splits)

lemma strtol_whole:
  assumes ws: "\<forall>c\<in>set ws. isspace c" and sg: "sg = [] \<or> sg = ''+'' \<or> sg = ''-''"
    and ds: "\<forall>c\<in>set ds. isdigit c" and ne: "ds \<noteq> []"
    and stop: "t = [] \<or> \<not> isdigit (hd t)"
  shows "strtol (ws @ sg @ ds @ t) =
           (max LONG_MIN (min LONG_MAX (if sg = ''-'' then - decimal 0 ds else decimal 0 ds)),
            length ws + length sg + length ds)"
  using sg strtol_unsigned[OF ws ds ne stop]
    strtol_signed[OF ws ds _ stop, of "CHR ''+''"] strtol_signed[OF ws ds _ stop, of "CHR ''-''"] ne
  by auto

lemma parse_destination_sound:
  assumes k: "k \<le> LONG_MAX" and p: "parse_destination s k = Some d"
  shows "destination_syntax s k d"
proof -
  obtain v e where st: "strtol s = (v, e)" by (cases "strtol s")
  with p have e: "e \<noteq> 0" "e = length s" and v: "0 \<le> v" "v < k" "d = v"
    by (auto simp: parse_destination_def split: if_splits)
  from strtol_consumed[OF st e(1)] obtain ws sg ds where
    s: "s = ws @ sg @ ds @ drop e s" and ws: "\<forall>c\<in>set ws. isspace c"
    and sg: "sg = [] \<or> sg = ''+'' \<or> sg = ''-''" and ne: "ds \<noteq> []"
    and ds: "\<forall>c\<in>set ds. isdigit c"
    and vv: "v = max LONG_MIN (min LONG_MAX (if sg = ''-'' then - decimal 0 ds else decimal 0 ds))"
    by blast
  from s e(2) have s': "s = ws @ sg @ ds" by simp
  have "v = (if sg = ''-'' then - decimal 0 ds else decimal 0 ds)"
    using clamp_long_range_back[OF _ _ k] v(1,2) vv by blast
  with s' ws sg ne ds v show ?thesis unfolding destination_syntax_def by blast
qed

lemma parse_destination_complete:
  assumes k: "k \<le> LONG_MAX" and p: "destination_syntax s k d"
  shows "parse_destination s k = Some d"
proof -
  from p obtain ws sg ds where
    s: "s = ws @ sg @ ds" and ws: "\<forall>c\<in>set ws. isspace c"
    and sg: "sg = [] \<or> sg = ''+'' \<or> sg = ''-''" and ne: "ds \<noteq> []"
    and ds: "\<forall>c\<in>set ds. isdigit c"
    and d: "d = (if sg = ''-'' then - decimal 0 ds else decimal 0 ds)" "0 \<le> d" "d < k"
    unfolding destination_syntax_def by blast
  have "strtol (ws @ sg @ ds @ []) = (max LONG_MIN (min LONG_MAX d), length ws + length sg + length ds)"
    unfolding d(1) by (rule strtol_whole[OF ws sg ds ne]) simp
  then have "strtol s = (d, length s)"
    using s clamp_long_in_range[OF d(2,3) k] by simp
  then show ?thesis using d ne s by (simp add: parse_destination_def)
qed

lemma parse_destination_trailing:
  assumes ws: "\<forall>c\<in>set ws. isspace c" and sg: "sg = [] \<or> sg = ''+'' \<or> sg = ''-''"
    and ds: "\<forall>c\<in>set ds. isdigit c" and ne: "ds \<noteq> []" and c: "\<not> isdigit c"
  shows "parse_destination (ws @ sg @ ds @ c # t) k = None"
proof -
  have "strtol (ws @ sg @ ds @ c # t) =
           (max LONG_MIN (min LONG_MAX (if sg = ''-'' then - decimal 0 ds else decimal 0 ds)),
            length ws + length sg + length ds)"
    by (rule strtol_whole[OF ws sg ds ne]) (simp add: c)
  then show ?thesis by (simp add: parse_destination_def)
qed

lemma parse_destination_no_digits:
  assumes ws: "\<forall>c\<in>set ws. isspace c" and sg: "sg = ''+'' \<or> sg = ''-''"
    and t: "t = [] \<or> \<not> isdigit (hd t)"
  shows "parse_destination (ws @ sg @ t) k = None"
proof -
  from sg obtain c where c: "sg = [c]" "c = CHR ''-'' \<or> c = CHR ''+''" by auto
  have "strtol (ws @ c # [] @ t) = (0, 0)"
    using strtol_signed[OF ws _ c(2) t, of "[]"] by simp
  then show ?thesis using c(1) by (simp add: parse_destination_def)
qed

lemma parse_destination_blank:
  assumes ws: "\<forall>c\<in>set ws. isspace c"
  shows "parse_destination ws k = None"
  using strtol_no_digits[OF ws, of "[]"] by (simp add: parse_destination_def)

text \<open>
  Claim C10. For a ring size \<open>k\<close> that a C \<^verbatim>\<open>long\<close> holds, \<^verbatim>\<open>parse_destination\<close>
  accepts a string with value \<open>d\<close> exactly when the string is optional white space, an
  optional \<open>+\<close> or \<open>-\<close>, and then one or more digits up to the end of the string, with
  the value \<open>d\<close> in \<open>[0, k)\<close>. So leading white space and a sign are accepted; a
  character that is not a digit after the number makes the string invalid, and so does
  a string with no digit.
\<close>

theorem parse_destination_accepts_exactly:
  assumes "k \<le> LONG_MAX"
  shows "(parse_destination s k = Some d \<longleftrightarrow> destination_syntax s k d)
       \<and> ((\<forall>c\<in>set ws. isspace c) \<and> (sg = [] \<or> sg = ''+'' \<or> sg = ''-'')
            \<and> ds \<noteq> [] \<and> (\<forall>c\<in>set ds. isdigit c) \<and> \<not> isdigit c
          \<longrightarrow> parse_destination (ws @ sg @ ds @ c # t) k = None)
       \<and> ((\<forall>c\<in>set ws. isspace c) \<and> (sg = [] \<or> sg = ''+'' \<or> sg = ''-'')
          \<longrightarrow> parse_destination (ws @ sg) k = None)"
proof (intro conjI impI)
  show "parse_destination s k = Some d \<longleftrightarrow> destination_syntax s k d"
    using parse_destination_sound[OF assms] parse_destination_complete[OF assms] by blast
next
  assume a: "(\<forall>c\<in>set ws. isspace c) \<and> (sg = [] \<or> sg = ''+'' \<or> sg = ''-'')
            \<and> ds \<noteq> [] \<and> (\<forall>c\<in>set ds. isdigit c) \<and> \<not> isdigit c"
  from a have 1: "\<forall>c\<in>set ws. isspace c" by (rule conjunct1)
  from a have 2: "sg = [] \<or> sg = ''+'' \<or> sg = ''-''" by simp
  from a have 3: "\<forall>c\<in>set ds. isdigit c" by simp
  from a have 4: "ds \<noteq> []" by simp
  from a have 5: "\<not> isdigit c" by simp
  show "parse_destination (ws @ sg @ ds @ c # t) k = None"
    using 1 2 3 4 5 by (rule parse_destination_trailing)
next
  assume a: "(\<forall>c\<in>set ws. isspace c) \<and> (sg = [] \<or> sg = ''+'' \<or> sg = ''-'')"
  from a have 1: "\<forall>c\<in>set ws. isspace c" by (rule conjunct1)
  from a have 2: "sg = [] \<or> sg = ''+'' \<or> sg = ''-''" by (rule conjunct2)
  show "parse_destination (ws @ sg) k = None"
  proof (cases "sg = []")
    case True
    then show ?thesis using parse_destination_blank[OF 1, of k] by simp
  next
    case False
    with 2 have "sg = ''+'' \<or> sg = ''-''" by simp
    from parse_destination_no_digits[OF 1 this, of "[]" k] show ?thesis by simp
  qed
qed

theorem parse_destination_accepts_exactly_witness:
  "(4::int) \<le> LONG_MAX
   \<and> parse_destination '' 3'' 4 = Some 3 \<and> parse_destination ''+2'' 4 = Some 2
   \<and> parse_destination ''-0'' 4 = Some 0
   \<and> parse_destination ''3x'' 4 = None \<and> parse_destination ''+'' 4 = None
   \<and> parse_destination [] 4 = None"
proof -
  have k: "(4::int) \<le> LONG_MAX" by (simp add: LONG_MAX_def)
  have sp: "isspace (CHR '' '')" by (simp add: isspace_def)
  have dg: "isdigit (CHR ''0'')" "isdigit (CHR ''2'')" "isdigit (CHR ''3'')"
       "\<not> isdigit (CHR ''x'')"
    by (simp_all add: isdigit_def)
  have a: "destination_syntax '' 3'' 4 3"
    unfolding destination_syntax_def
    by (rule exI[of _ "'' ''"], rule exI[of _ "[]"], rule exI[of _ "''3''"])
       (simp add: sp dg digit_val_def)
  have b: "destination_syntax ''+2'' 4 2"
    unfolding destination_syntax_def
    by (rule exI[of _ "[]"], rule exI[of _ "''+''"], rule exI[of _ "''2''"])
       (simp add: dg digit_val_def)
  have c: "destination_syntax ''-0'' 4 0"
    unfolding destination_syntax_def
    by (rule exI[of _ "[]"], rule exI[of _ "''-''"], rule exI[of _ "''0''"])
       (simp add: dg digit_val_def)
  show ?thesis
    using parse_destination_accepts_exactly[OF k, of "'' 3''" 3 "[]" "[]" "''3''" "CHR ''x''" "[]"]
      parse_destination_accepts_exactly[OF k, of "''+2''" 2 "[]" "''+''" "[]" "CHR ''x''" "[]"]
      parse_destination_accepts_exactly[OF k, of "''-0''" 0 "[]" "[]" "[]" "CHR ''x''" "[]"]
      a b c k dg
    by simp
qed

section \<open>Facts about one pass of the loop and about the ring\<close>

lemma dispatch_forward:
  "dest a \<noteq> DEST_EMPTY \<Longrightarrow> dest a \<noteq> n \<Longrightarrow>
     node_dispatch n k a inp = ([Log_forwarding n (dest a)], Send a, inp)"
  by (simp add: node_dispatch_def)

lemma dispatch_deliver:
  "dest a \<noteq> DEST_EMPTY \<Longrightarrow> dest a = n \<Longrightarrow>
     node_dispatch n k a inp =
       ([Log_received_message n (origin a) (cstr (text' a)), Log_processed n],
        Send (a\<lparr>dest := DEST_EMPTY, origin := n, text' := (text' a)[0 := NUL]\<rparr>), inp)"
  by (simp add: node_dispatch_def)


lemma ring_step_forward:
  "dest a \<noteq> DEST_EMPTY \<Longrightarrow> dest a \<noteq> pos \<Longrightarrow>
     ring_step k \<lparr>holder = pos, token = a, console = inp\<rparr> =
       Some ([Log_forwarding pos (dest a)],
             \<lparr>holder = next_node k pos, token = a, console = inp\<rparr>)"
  by (simp add: ring_step_def dispatch_forward)

lemma ring_step_deliver:
  "dest a \<noteq> DEST_EMPTY \<Longrightarrow> dest a = pos \<Longrightarrow>
     ring_step k \<lparr>holder = pos, token = a, console = inp\<rparr> =
       Some ([Log_received_message pos (origin a) (cstr (text' a)), Log_processed pos],
             \<lparr>holder = next_node k pos,
                token = a\<lparr>dest := DEST_EMPTY, origin := pos, text' := (text' a)[0 := NUL]\<rparr>,
                console = inp\<rparr>)"
  by (simp add: ring_step_def dispatch_deliver)

lemma mod_zero_small:
  fixes x k :: int
  assumes "0 < k" "- k < x" "x < k" "x mod k = 0"
  shows "x = 0"
proof (rule ccontr)
  assume nz: "x \<noteq> 0"
  have dv: "k dvd x" using assms(4) by (simp add: mod_eq_0_iff_dvd)
  show False
  proof (cases "0 < x")
    case True
    with dv have "k \<le> x" by (rule zdvd_imp_le)
    with assms(3) show False by simp
  next
    case False
    with nz have "0 < - x" by simp
    moreover have "k dvd - x" using dv by simp
    ultimately have "k \<le> - x" by (rule_tac zdvd_imp_le)
    with assms(2) show False by simp
  qed
qed

lemma mod_step_down:
  fixes d pos k :: int
  assumes "0 < k" "(d - pos) mod k = 1 + m" "0 \<le> m"
  shows "(d - (pos + 1) mod k) mod k = m"
proof -
  have "(d - (pos + 1) mod k) mod k = (d - (pos + 1)) mod k"
    by (simp add: mod_diff_right_eq)
  also have "\<dots> = ((d - pos) mod k - 1) mod k"
    by (metis diff_diff_eq mod_diff_left_eq)
  also have "\<dots> = m mod k" using assms by simp
  also have "\<dots> = m"
  proof -
    have "(d - pos) mod k < k" using assms(1) by simp
    then have "m < k" using assms(2) by linarith
    then show ?thesis using assms(3) by simp
  qed
  finally show ?thesis .
qed

lemma travel_delivers:
  fixes k :: int
  assumes k: "0 < k" and d: "0 \<le> dest a" "dest a < k"
  shows "0 \<le> pos \<Longrightarrow> pos < k \<Longrightarrow> nat ((dest a - pos) mod k) = m \<Longrightarrow>
    hops_to_delivery k \<lparr>holder = pos, token = a, console = inp\<rparr> n =
      Some (Inr (n + m, dest a, origin a, cstr (text' a),
                 \<lparr>holder = next_node k (dest a),
                    token = a\<lparr>dest := DEST_EMPTY, origin := dest a, text' := (text' a)[0 := NUL]\<rparr>,
                    console = inp\<rparr>))"
proof (induction m arbitrary: pos n)
  case 0
  have ne: "dest a \<noteq> DEST_EMPTY" using d by (simp add: DEST_EMPTY_def)
  have "0 \<le> (dest a - pos) mod k" using k by simp
  with 0 have z: "(dest a - pos) mod k = 0" by simp
  have "- k < dest a - pos" "dest a - pos < k" using 0 d by linarith+
  from mod_zero_small[OF k this z] have eq: "dest a = pos" by simp
  show ?case unfolding eq[symmetric]
    by (subst hops_to_delivery.simps) (simp add: ring_step_deliver[OF ne refl])
next
  case (Suc m)
  have ne: "dest a \<noteq> DEST_EMPTY" using d by (simp add: DEST_EMPTY_def)
  have md: "(dest a - pos) mod k = 1 + int m" using Suc.prems(3) by linarith
  then have neq: "dest a \<noteq> pos" by auto
  have nx: "0 \<le> next_node k pos" "next_node k pos < k" using k by (simp_all add: next_node_def)
  have "nat ((dest a - next_node k pos) mod k) = m"
    using mod_step_down[OF k md] by (simp add: next_node_def)
  from Suc.IH[OF nx this, of "Suc n"] show ?case
    by (subst hops_to_delivery.simps) (simp add: ring_step_forward[OF ne neq])
qed

lemma hops_closed_form:
  fixes k :: int
  assumes "2 \<le> k" "0 \<le> o'" "o' < k" "0 \<le> d" "d < k"
  shows "1 + nat ((d - next_node k o') mod k) = nat (if d = o' then k else (d - o' + k) mod k)"
proof (cases "d = o'")
  case True
  have "(d - (d + 1) mod k) mod k = (d - (d + 1)) mod k" by (simp add: mod_diff_right_eq)
  also have "\<dots> = k - 1" using assms(1) by (simp add: zmod_minus1)
  finally show ?thesis using True assms by (simp add: next_node_def)
next
  case False
  have "(d - o') mod k \<noteq> 0"
  proof
    assume "(d - o') mod k = 0"
    moreover have "- k < d - o'" "d - o' < k" using assms by linarith+
    ultimately have "d - o' = 0"
      using mod_zero_small[of k "d - o'"] assms(1) by simp
    then show False using False by simp
  qed
  moreover have "0 \<le> (d - o') mod k" using assms by simp
  ultimately obtain m where m: "(d - o') mod k = 1 + m" "0 \<le> m"
    by (metis add.commute diff_add_cancel zle_diff1_eq order_less_le)
  have "(d - next_node k o') mod k = m"
    unfolding next_node_def using mod_step_down[of k d o' m] m assms by simp
  then show ?thesis using False m by simp
qed

lemma read_line_short:
  "\<forall>c\<in>set l. c \<noteq> NL \<Longrightarrow> length l < m \<Longrightarrow> read_line m (l @ NL # rest) = l @ [NL]"
proof (induction l arbitrary: m)
  case Nil
  then show ?case by (cases m) auto
next
  case (Cons c l)
  then show ?case by (cases m) auto
qed

lemma read_line_eof:
  "\<forall>c\<in>set l. c \<noteq> NL \<Longrightarrow> length l \<le> m \<Longrightarrow> read_line m l = l"
proof (induction l arbitrary: m)
  case Nil
  then show ?case by (cases m) auto
next
  case (Cons c l)
  then show ?case by (cases m) auto
qed

lemma read_line_long:
  "\<forall>c\<in>set l. c \<noteq> NL \<Longrightarrow> m \<le> length l \<Longrightarrow> read_line m (l @ rest) = take m l"
proof (induction l arbitrary: m)
  case Nil
  then show ?case by (cases m) auto
next
  case (Cons c l)
  then show ?case by (cases m) auto
qed

lemma cstr_no_nul: "\<forall>c\<in>set l. c \<noteq> NUL \<Longrightarrow> cstr l = l"
  by (simp add: cstr_def)

lemma cstr_stop: "\<forall>c\<in>set l. c \<noteq> NUL \<Longrightarrow> cstr (l @ NUL # rest) = l"
  by (simp add: cstr_def takeWhile_append)

lemma chomp_line: "chomp (l @ [NL]) = l"
  by (simp add: chomp_def)

lemma chomp_no_newline: "\<forall>c\<in>set l. c \<noteq> NL \<Longrightarrow> chomp l = l"
  by (cases l rule: rev_cases) (auto simp: chomp_def)

text \<open>What the message prompt stores for a supplied text \<open>msg\<close>.\<close>

lemma message_line_gen:
  assumes nl: "\<forall>c\<in>set msg. c \<noteq> NL" and nul: "\<forall>c\<in>set msg. c \<noteq> NUL"
    and rest: "rest = [] \<or> hd rest = NL"
  shows "chomp (cstr (fst (case fgets (Suc m) (msg @ rest) of
                             None \<Rightarrow> ([], msg @ rest) | Some (l2, r) \<Rightarrow> (l2, r))))
         = take m msg"
proof (cases "m \<le> length msg")
  case True
  have t: "\<forall>c\<in>set (take m msg). c \<noteq> NL" "\<forall>c\<in>set (take m msg). c \<noteq> NUL"
    using nl nul by (auto dest: in_set_takeD)
  show ?thesis
  proof (cases "msg @ rest = []")
    case True
    then show ?thesis by (simp add: fgets_def cstr_def chomp_def)
  next
    case False
    then have "fgets (Suc m) (msg @ rest) = Some (take m msg, drop (length (take m msg)) (msg @ rest))"
      by (simp add: fgets_def Let_def read_line_long[OF nl True])
    then show ?thesis
      by (simp add: cstr_no_nul[OF t(2)] chomp_no_newline[OF t(1)])
  qed
next
  case False
  then have len: "length msg < m" by simp
  show ?thesis
  proof (cases rest)
    case Nil
    show ?thesis
    proof (cases "msg = []")
      case True
      then show ?thesis using Nil by (simp add: fgets_def cstr_def chomp_def)
    next
      case False
      have "read_line m msg = msg" using nl len by (simp add: read_line_eof)
      then have "fgets (Suc m) (msg @ rest) = Some (msg, [])"
        using False Nil by (simp add: fgets_def Let_def)
      then show ?thesis using len
        by (simp add: cstr_no_nul[OF nul] chomp_no_newline[OF nl])
    qed
  next
    case (Cons c r)
    with rest have c: "c = NL" by simp
    have n2: "\<forall>c\<in>set (msg @ [NL]). c \<noteq> NUL" using nul by auto
    have "fgets (Suc m) (msg @ rest) = Some (msg @ [NL], r)"
      using Cons c by (simp add: fgets_def Let_def read_line_short[OF nl len])
    then show ?thesis using len
      by (simp add: cstr_no_nul[OF n2] chomp_line)
  qed
qed

lemma message_line:
  assumes nl: "\<forall>c\<in>set msg. c \<noteq> NL" and nul: "\<forall>c\<in>set msg. c \<noteq> NUL"
    and rest: "rest = [] \<or> hd rest = NL"
  shows "chomp (cstr (fst (case fgets MAX_TEXT (msg @ rest) of
                             None \<Rightarrow> ([], msg @ rest) | Some (l2, r) \<Rightarrow> (l2, r))))
         = take (MAX_TEXT - 1) msg"
proof -
  have "MAX_TEXT = Suc (MAX_TEXT - 1)" by (simp add: MAX_TEXT_def)
  then show ?thesis using message_line_gen[OF nl nul rest, of "MAX_TEXT - 1"] by metis
qed

text \<open>The string in the text array after \<^verbatim>\<open>strncpy\<close> and the terminator.\<close>

lemma stored_text:
  assumes nul: "\<forall>c\<in>set s. c \<noteq> NUL" and len: "length s \<le> MAX_TEXT - 1"
    and buf: "length old = MAX_TEXT"
  shows "cstr ((strncpy old s (MAX_TEXT - 1))[MAX_TEXT - 1 := NUL]) = s"
proof -
  have d: "drop (MAX_TEXT - 1) old \<noteq> []" using buf by (simp add: MAX_TEXT_def)
  then obtain b bs where b: "drop (MAX_TEXT - 1) old = b # bs" by (cases "drop (MAX_TEXT - 1) old") auto
  have "strncpy old s (MAX_TEXT - 1) = (s @ replicate (MAX_TEXT - 1 - length s) NUL) @ b # bs"
    using len b by (simp add: strncpy_def)
  moreover have "length (s @ replicate (MAX_TEXT - 1 - length s) NUL) = MAX_TEXT - 1"
    using len by simp
  ultimately have "(strncpy old s (MAX_TEXT - 1))[MAX_TEXT - 1 := NUL]
      = (s @ replicate (MAX_TEXT - 1 - length s) NUL) @ NUL # bs"
    by (metis list_update_length)
  also have "\<dots> = s @ NUL # (replicate (MAX_TEXT - 1 - length s) NUL @ bs)"
    by (simp add: replicate_app_Cons_same)
  finally show ?thesis using cstr_stop[OF nul] by simp
qed

lemma dispatch_inject:
  assumes e: "dest a = DEST_EMPTY"
    and l: "fgets 64 inp = Some (l, inp1)"
    and p: "parse_destination (chomp (cstr l)) k = Some d"
  shows "node_dispatch 0 k a inp =
     (let (l2, inp2) = (case fgets MAX_TEXT inp1 of None \<Rightarrow> ([], inp1) | Some (l2, r) \<Rightarrow> (l2, r));
          a' = a\<lparr>dest := d, origin := 0,
                 text' := (strncpy (text' a) (chomp (cstr l2)) (MAX_TEXT - 1))[MAX_TEXT - 1 := NUL]\<rparr>
      in ([Log_returned_empty 0, Prompt_destination (k - 1), Prompt_message,
           Log_injecting 0 d (cstr (text' a'))], Send a', inp2))"
proof -
  have q: "chomp (cstr l) \<noteq> ''q''" "chomp (cstr l) \<noteq> ''Q''"
    using p by (auto simp: parse_destination_def strtol_def isspace_def isdigit_def)
  show ?thesis
    using e l p q by (simp add: node_dispatch_def Let_def split: prod.splits option.splits)
qed

lemma parse_destination_zero: "1 \<le> k \<Longrightarrow> parse_destination ''0'' k = Some 0"
  by (simp add: parse_destination_def strtol_def isspace_def isdigit_def digit_val_def
      LONG_MIN_def LONG_MAX_def)

lemma fgets_line:
  "\<forall>c\<in>set l. c \<noteq> NL \<Longrightarrow> length l < n - 1 \<Longrightarrow> fgets n (l @ NL # rest) = Some (l @ [NL], rest)"
  by (simp add: fgets_def Let_def read_line_short)

lemma ring_step_inject:
  assumes e: "dest a = DEST_EMPTY"
    and l: "fgets 64 inp = Some (l, inp1)"
    and p: "parse_destination (chomp (cstr l)) k = Some d"
  shows "\<exists>evs a' inp2. ring_step k \<lparr>holder = 0, token = a, console = inp\<rparr>
           = Some (evs, \<lparr>holder = next_node k 0, token = a', console = inp2\<rparr>)
         \<and> dest a' = d \<and> origin a' = 0
         \<and> text' a' = (strncpy (text' a)
                          (chomp (cstr (fst (case fgets MAX_TEXT inp1 of
                                               None \<Rightarrow> ([], inp1) | Some (l2, r) \<Rightarrow> (l2, r)))))
                          (MAX_TEXT - 1))[MAX_TEXT - 1 := NUL]"
proof -
  obtain l2 inp2 where f: "(case fgets MAX_TEXT inp1 of None \<Rightarrow> ([], inp1) | Some (l2, r) \<Rightarrow> (l2, r)) = (l2, inp2)"
    by (cases "case fgets MAX_TEXT inp1 of None \<Rightarrow> ([], inp1) | Some (l2, r) \<Rightarrow> (l2, r)")
  show ?thesis
    unfolding ring_step_def
    by (simp add: dispatch_inject[OF e l p] f Let_def)
qed

text \<open>
  Claim C1. In a ring of \<open>k \<ge> 2\<close> nodes (so for every \<open>k\<close> in \<open>[2, MAX_K]\<close>), a message
  written into the ring by node \<open>og\<close> with a destination \<open>d\<close> in \<open>[0, k)\<close> is delivered
  at node \<open>d\<close> after exactly \<open>(d - og + k) mod k\<close> hops when \<open>d \<noteq> og\<close>, and after \<open>k\<close>
  hops when \<open>d = og\<close>. The first hop is the write of the injecting node, and each relay
  adds one. The destination \<open>0\<close>, the id of the injecting node of the program, passes
  \<^verbatim>\<open>parse_destination\<close>; node 0 then injects a message addressed to itself, which
  comes back to it after \<open>k\<close> hops.
\<close>

theorem traversal_count:
  assumes "2 \<le> k" and "k \<le> MAX_K" and "0 \<le> og" and "og < k"
    and "0 \<le> dest a" and "dest a < k"
  shows "hops_to_delivery k \<lparr>holder = next_node k og, token = a, console = inp\<rparr> 1
           = Some (Inr (nat (if dest a = og then k else (dest a - og + k) mod k),
                        dest a, origin a, cstr (text' a),
                        \<lparr>holder = next_node k (dest a),
                           token = a\<lparr>dest := DEST_EMPTY, origin := dest a,
                                     text' := (text' a)[0 := NUL]\<rparr>,
                           console = inp\<rparr>))
       \<and> parse_destination ''0'' k = Some 0
       \<and> (dest e = DEST_EMPTY \<longrightarrow>
            (case ring_step k \<lparr>holder = 0, token = e, console = ''0'' @ NL # inp\<rparr> of
               None \<Rightarrow> False
             | Some (evs, r0) \<Rightarrow>
                 holder r0 = next_node k 0 \<and> dest (token r0) = 0 \<and> origin (token r0) = 0
                 \<and> (case hops_to_delivery k r0 1 of
                       Some (Inr (h, node, rest)) \<Rightarrow> h = nat k \<and> node = 0
                     | _ \<Rightarrow> False)))"
proof (intro conjI impI)
  have k0: "0 < k" using assms(1) by simp
  have nx: "0 \<le> next_node k og" "next_node k og < k" using k0 by (simp_all add: next_node_def)
  show "hops_to_delivery k \<lparr>holder = next_node k og, token = a, console = inp\<rparr> 1
           = Some (Inr (nat (if dest a = og then k else (dest a - og + k) mod k),
                        dest a, origin a, cstr (text' a),
                        \<lparr>holder = next_node k (dest a),
                           token = a\<lparr>dest := DEST_EMPTY, origin := dest a,
                                     text' := (text' a)[0 := NUL]\<rparr>,
                           console = inp\<rparr>))"
    using travel_delivers[OF k0 assms(5,6) nx refl, of inp 1]
      hops_closed_form[OF assms(1,3,4,5,6)] by simp
next
  show "parse_destination ''0'' k = Some 0"
    using assms(1) by (simp add: parse_destination_zero)
next
  assume e: "dest e = DEST_EMPTY"
  have k0: "0 < k" using assms(1) by simp
  have f: "fgets 64 (''0'' @ NL # inp) = Some (''0'' @ [NL], inp)"
    by (rule fgets_line) simp_all
  have c: "chomp (cstr (''0'' @ [NL])) = ''0''"
    by (simp add: cstr_def chomp_def)
  have p: "parse_destination (chomp (cstr (''0'' @ [NL]))) k = Some 0"
    unfolding c using assms(1) by (simp add: parse_destination_zero)
  from ring_step_inject[OF e f p] obtain evs a' inp2 where
    st: "ring_step k \<lparr>holder = 0, token = e, console = ''0'' @ NL # inp\<rparr>
           = Some (evs, \<lparr>holder = next_node k 0, token = a', console = inp2\<rparr>)"
    and a': "dest a' = 0" "origin a' = 0"
    by blast
  have nx: "0 \<le> next_node k 0" "next_node k 0 < k" using k0 by (simp_all add: next_node_def)
  have d: "0 \<le> dest a'" "dest a' < k" using a' k0 by simp_all
  have h: "hops_to_delivery k \<lparr>holder = next_node k 0, token = a', console = inp2\<rparr> 1
        = Some (Inr (nat k, 0, origin a', cstr (text' a'),
                     \<lparr>holder = next_node k 0,
                        token = a'\<lparr>dest := DEST_EMPTY, origin := 0, text' := (text' a')[0 := NUL]\<rparr>,
                        console = inp2\<rparr>))"
    using travel_delivers[OF k0 d nx refl, of inp2 1]
      hops_closed_form[OF assms(1) _ _ d, of 0] k0 a' by simp
  show "case ring_step k \<lparr>holder = 0, token = e, console = ''0'' @ NL # inp\<rparr> of
               None \<Rightarrow> False
             | Some (evs, r0) \<Rightarrow>
                 holder r0 = next_node k 0 \<and> dest (token r0) = 0 \<and> origin (token r0) = 0
                 \<and> (case hops_to_delivery k r0 1 of
                       Some (Inr (h, node, rest)) \<Rightarrow> h = nat k \<and> node = 0
                     | _ \<Rightarrow> False)"
    unfolding st by (simp add: a' h[unfolded One_nat_def])
qed

theorem traversal_count_witness:
  "(2::int) \<le> 3 \<and> 3 \<le> MAX_K \<and> (0::int) \<le> 0 \<and> (0::int) < 3
   \<and> hops_to_delivery 3 \<lparr>holder = 1, token = \<lparr>dest = 2, origin = 0, text' = ''hi'' @ [NUL]\<rparr>,
                            console = []\<rparr> 1
       = Some (Inr (2, 2, 0, ''hi'',
                    \<lparr>holder = 0, token = \<lparr>dest = - 1, origin = 2, text' = NUL # ''i'' @ [NUL]\<rparr>,
                       console = []\<rparr>))
   \<and> hops_to_delivery 3 \<lparr>holder = 1, token = \<lparr>dest = 0, origin = 0, text' = ''hi'' @ [NUL]\<rparr>,
                            console = []\<rparr> 1
       = Some (Inr (3, 0, 0, ''hi'',
                    \<lparr>holder = 1, token = \<lparr>dest = - 1, origin = 0, text' = NUL # ''i'' @ [NUL]\<rparr>,
                       console = []\<rparr>))
   \<and> parse_destination ''0'' 3 = Some 0
   \<and> (case ring_step 3 \<lparr>holder = 0, token = \<lparr>dest = - 1, origin = 0, text' = []\<rparr>,
                          console = ''0'' @ [NL]\<rparr> of
         None \<Rightarrow> False
       | Some (evs, r0) \<Rightarrow>
           holder r0 = next_node 3 0 \<and> dest (token r0) = 0 \<and> origin (token r0) = 0
           \<and> (case hops_to_delivery 3 r0 1 of
                 Some (Inr (h, node, rest)) \<Rightarrow> h = nat 3 \<and> node = 0
               | _ \<Rightarrow> False))"
proof -
  have k: "(2::int) \<le> 3" "3 \<le> MAX_K" "(0::int) \<le> 0" "(0::int) < 3"
    by (simp_all add: MAX_K_def)
  have e: "dest \<lparr>dest = - 1, origin = 0, text' = []\<rparr> = DEST_EMPTY"
    by (simp add: DEST_EMPTY_def)
  have a: "0 \<le> dest \<lparr>dest = 2, origin = 0, text' = ''hi'' @ [NUL]\<rparr>"
          "dest \<lparr>dest = 2, origin = 0, text' = ''hi'' @ [NUL]\<rparr> < 3"
    by simp_all
  have b: "0 \<le> dest \<lparr>dest = 0, origin = 0, text' = ''hi'' @ [NUL]\<rparr>"
          "dest \<lparr>dest = 0, origin = 0, text' = ''hi'' @ [NUL]\<rparr> < 3"
    by simp_all
  show ?thesis
    using traversal_count[OF k a, of "[]" "\<lparr>dest = - 1, origin = 0, text' = []\<rparr>"]
      traversal_count[OF k b, of "[]" "\<lparr>dest = - 1, origin = 0, text' = []\<rparr>"] e k
    by (simp add: next_node_def cstr_def DEST_EMPTY_def)
qed

lemma parse_destination_range:
  "parse_destination s k = Some d \<Longrightarrow> 0 \<le> d \<and> d < k"
  by (auto simp: parse_destination_def split: prod.splits if_splits)

text \<open>
  Claim C2. When node 0 holds the empty apple, reads a valid destination \<open>d\<close> and is
  then given the line \<open>msg\<close> as text (no NUL in it; the line ends with a newline or with
  the end of the input), the string it puts into the apple is \<open>msg\<close> cut to
  \<open>MAX_TEXT - 1 = 1023\<close> bytes, which with the terminator is the bound of 1024 bytes,
  and the text that node \<open>d\<close> reports at the delivery is that same string, with origin
  0. A node that forwards an addressed apple not meant for it writes the record it read,
  every field unchanged.
\<close>

theorem content_fidelity:
  assumes "2 \<le> k" and "k \<le> MAX_K"
    and "dest e = DEST_EMPTY" and "length (text' e) = MAX_TEXT"
    and "fgets 64 inp = Some (l, msg @ rest)"
    and "parse_destination (chomp (cstr l)) k = Some d"
    and "\<forall>c\<in>set msg. c \<noteq> NL" and "\<forall>c\<in>set msg. c \<noteq> NUL"
    and "rest = [] \<or> hd rest = NL"
  shows "(case ring_step k \<lparr>holder = 0, token = e, console = inp\<rparr> of
            None \<Rightarrow> False
          | Some (evs, r0) \<Rightarrow>
              dest (token r0) = d \<and> origin (token r0) = 0
              \<and> cstr (text' (token r0)) = take (MAX_TEXT - 1) msg
              \<and> (case hops_to_delivery k r0 1 of
                    Some (Inr (h, node, og, t, r')) \<Rightarrow>
                      node = d \<and> og = 0 \<and> t = take (MAX_TEXT - 1) msg
                  | _ \<Rightarrow> False))
       \<and> (dest a \<noteq> DEST_EMPTY \<and> dest a \<noteq> n
            \<longrightarrow> node_dispatch n k a inp' = ([Log_forwarding n (dest a)], Send a, inp'))"
proof (intro conjI impI)
  have k0: "0 < k" using assms(1) by simp
  from ring_step_inject[OF assms(3,5,6)] obtain evs a' inp2 where
    st: "ring_step k \<lparr>holder = 0, token = e, console = inp\<rparr>
           = Some (evs, \<lparr>holder = next_node k 0, token = a', console = inp2\<rparr>)"
    and a': "dest a' = d" "origin a' = 0"
    and t: "text' a' = (strncpy (text' e)
                          (chomp (cstr (fst (case fgets MAX_TEXT (msg @ rest) of
                                               None \<Rightarrow> ([], msg @ rest) | Some (l2, r) \<Rightarrow> (l2, r)))))
                          (MAX_TEXT - 1))[MAX_TEXT - 1 := NUL]"
    by blast
  have tk: "\<forall>c\<in>set (take (MAX_TEXT - 1) msg). c \<noteq> NUL"
    using assms(8) by (auto dest: in_set_takeD)
  have c: "cstr (text' a') = take (MAX_TEXT - 1) msg"
    unfolding t message_line[OF assms(7,8,9)]
    by (rule stored_text[OF tk _ assms(4)]) simp
  have d: "0 \<le> dest a'" "dest a' < k"
    using parse_destination_range[OF assms(6)] a' by simp_all
  have nx: "0 \<le> next_node k 0" "next_node k 0 < k" using k0 by (simp_all add: next_node_def)
  have h: "hops_to_delivery k \<lparr>holder = next_node k 0, token = a', console = inp2\<rparr> (Suc 0)
        = Some (Inr (Suc 0 + nat ((dest a' - next_node k 0) mod k), d, 0, take (MAX_TEXT - 1) msg,
                     \<lparr>holder = next_node k (dest a'),
                        token = a'\<lparr>dest := DEST_EMPTY, origin := dest a', text' := (text' a')[0 := NUL]\<rparr>,
                        console = inp2\<rparr>))"
    using travel_delivers[OF k0 d nx refl, of inp2 "Suc 0"] a' c by simp
  show "case ring_step k \<lparr>holder = 0, token = e, console = inp\<rparr> of
            None \<Rightarrow> False
          | Some (evs, r0) \<Rightarrow>
              dest (token r0) = d \<and> origin (token r0) = 0
              \<and> cstr (text' (token r0)) = take (MAX_TEXT - 1) msg
              \<and> (case hops_to_delivery k r0 1 of
                    Some (Inr (h, node, og, t, r')) \<Rightarrow>
                      node = d \<and> og = 0 \<and> t = take (MAX_TEXT - 1) msg
                  | _ \<Rightarrow> False)"
    unfolding st by (simp add: a' c h)
next
  assume "dest a \<noteq> DEST_EMPTY \<and> dest a \<noteq> n"
  then show "node_dispatch n k a inp' = ([Log_forwarding n (dest a)], Send a, inp')"
    by (simp add: dispatch_forward)
qed

theorem content_fidelity_witness:
  "(2::int) \<le> 3 \<and> 3 \<le> MAX_K \<and> dest seed = DEST_EMPTY \<and> length (text' seed) = MAX_TEXT
   \<and> fgets 64 (''2'' @ NL # ''hi'' @ [NL]) = Some (''2'' @ [NL], ''hi'' @ [NL])
   \<and> parse_destination (chomp (cstr (''2'' @ [NL]))) 3 = Some 2
   \<and> (case ring_step 3 \<lparr>holder = 0, token = seed, console = ''2'' @ NL # ''hi'' @ [NL]\<rparr> of
         None \<Rightarrow> False
       | Some (evs, r0) \<Rightarrow>
           dest (token r0) = 2 \<and> origin (token r0) = 0 \<and> cstr (text' (token r0)) = ''hi''
           \<and> (case hops_to_delivery 3 r0 1 of
                 Some (Inr (h, node, og, t, r')) \<Rightarrow> node = 2 \<and> og = 0 \<and> t = ''hi''
               | _ \<Rightarrow> False))
   \<and> (case ring_step 3 \<lparr>holder = 0, token = seed,
                          console = ''2'' @ NL # replicate 1500 (CHR ''x'')\<rparr> of
         None \<Rightarrow> False
       | Some (evs, r0) \<Rightarrow>
           dest (token r0) = 2 \<and> origin (token r0) = 0
           \<and> cstr (text' (token r0)) = replicate 1023 (CHR ''x'')
           \<and> (case hops_to_delivery 3 r0 1 of
                 Some (Inr (h, node, og, t, r')) \<Rightarrow>
                   node = 2 \<and> og = 0 \<and> t = replicate 1023 (CHR ''x'')
               | _ \<Rightarrow> False))
   \<and> node_dispatch 1 3 \<lparr>dest = 2, origin = 0, text' = ''hi'' @ [NUL]\<rparr> []
       = ([Log_forwarding 1 2], Send \<lparr>dest = 2, origin = 0, text' = ''hi'' @ [NUL]\<rparr>, [])"
proof -
  have f2: "fgets 64 (''2'' @ NL # replicate 1500 (CHR ''x''))
              = Some (''2'' @ [NL], replicate 1500 (CHR ''x'') @ [])"
    using fgets_line[of "''2''" 64 "replicate 1500 (CHR ''x'')"] by simp
  have m2: "\<forall>c\<in>set (replicate 1500 (CHR ''x'')). c \<noteq> NL"
           "\<forall>c\<in>set (replicate 1500 (CHR ''x'')). c \<noteq> NUL"
           "([]::string) = [] \<or> hd ([]::string) = NL"
    by simp_all
  have t2: "take (MAX_TEXT - 1) (replicate 1500 (CHR ''x'')) = replicate 1023 (CHR ''x'')"
    by (simp add: MAX_TEXT_def)
  have k: "(2::int) \<le> 3" "3 \<le> MAX_K" by (simp_all add: MAX_K_def)
  have e: "dest seed = DEST_EMPTY" "length (text' seed) = MAX_TEXT" by (simp_all add: seed_def)
  have f: "fgets 64 (''2'' @ NL # ''hi'' @ [NL]) = Some (''2'' @ [NL], ''hi'' @ [NL])"
    by (rule fgets_line) simp_all
  have p: "parse_destination (chomp (cstr (''2'' @ [NL]))) 3 = Some 2"
    by (simp add: cstr_def chomp_def parse_destination_def strtol_def isspace_def isdigit_def
        digit_val_def LONG_MIN_def LONG_MAX_def)
  have m: "\<forall>c\<in>set ''hi''. c \<noteq> NL" "\<forall>c\<in>set ''hi''. c \<noteq> NUL" "[NL] = [] \<or> hd [NL] = NL"
    by simp_all
  have a: "dest \<lparr>dest = 2, origin = 0, text' = ''hi'' @ [NUL]\<rparr> \<noteq> DEST_EMPTY
           \<and> dest \<lparr>dest = 2, origin = 0, text' = ''hi'' @ [NUL]\<rparr> \<noteq> 1"
    by (simp add: DEST_EMPTY_def)
  have t: "take (MAX_TEXT - 1) ''hi'' = ''hi''" by (simp add: MAX_TEXT_def)
  show ?thesis
    using content_fidelity[OF k e f p m, of "\<lparr>dest = 2, origin = 0, text' = ''hi'' @ [NUL]\<rparr>" 1 "[]"]
      content_fidelity[OF k e f2 p m2, of "\<lparr>dest = 2, origin = 0, text' = ''hi'' @ [NUL]\<rparr>" 1 "[]"]
      a k e f p
    unfolding t t2 by simp
qed

lemma cstr_cleared: "cstr (buf[0 := NUL]) = []"
  by (cases buf) (simp_all add: cstr_def)

lemma node_loop_pass:
  assumes "\<not> stop_requested p" and "\<not> usr1_before e"
    and "read_full (reads e) False sizeof_apple = Some (0, s1, rs)"
    and "node_dispatch (my_id p) (g_k p) (incoming e) (stdin p) = (evs, Send a', inp')"
    and "write_full (writes e) s1 sizeof_apple = Some (0, s2, ws)"
  shows "node_loop p waits (e # es) =
           evs @ [Wrote a'] @ node_loop (p\<lparr>stop_requested := s2, stdin := inp'\<rparr>) waits es"
  using assms by simp

lemma proc_same_stdin: "p\<lparr>stop_requested := s, stdin := stdin p\<rparr> = p\<lparr>stop_requested := s\<rparr>"
  by simp

text \<open>
  Claim C3. A node \<open>n\<close> (ids are not negative) that reads an apple whose \<open>dest\<close> is \<open>n\<close>
  prints the delivery with the origin and the text of the apple, and then writes the
  apple with \<open>dest = -1\<close>, \<open>origin = n\<close> and a text array that starts with NUL, so that
  its string is empty. In the process, when the read and the write succeed, this is what
  the pass of the loop prints and writes before the next pass.
\<close>

theorem delivery_clears_apple:
  assumes "0 \<le> n" and "dest a = n"
  shows "node_dispatch n k a inp =
           ([Log_received_message n (origin a) (cstr (text' a)), Log_processed n],
            Send \<lparr>dest = DEST_EMPTY, origin = n, text' = (text' a)[0 := NUL]\<rparr>, inp)
       \<and> DEST_EMPTY = - 1
       \<and> cstr ((text' a)[0 := NUL]) = []
       \<and> (my_id p = n \<and> incoming e = a \<and> \<not> stop_requested p \<and> \<not> usr1_before e
            \<and> read_full (reads e) False sizeof_apple = Some (0, s1, rs)
            \<and> write_full (writes e) s1 sizeof_apple = Some (0, s2, ws)
          \<longrightarrow> node_loop p waits (e # es) =
                [Log_received_message n (origin a) (cstr (text' a)), Log_processed n,
                 Wrote \<lparr>dest = DEST_EMPTY, origin = n, text' = (text' a)[0 := NUL]\<rparr>]
                @ node_loop (p\<lparr>stop_requested := s2\<rparr>) waits es)"
proof (intro conjI impI)
  have ne: "dest a \<noteq> DEST_EMPTY" using assms by (simp add: DEST_EMPTY_def)
  have cl: "a\<lparr>dest := DEST_EMPTY, origin := n, text' := (text' a)[0 := NUL]\<rparr>
              = \<lparr>dest = DEST_EMPTY, origin = n, text' = (text' a)[0 := NUL]\<rparr>"
    by simp
  show d: "node_dispatch n k a inp =
           ([Log_received_message n (origin a) (cstr (text' a)), Log_processed n],
            Send \<lparr>dest = DEST_EMPTY, origin = n, text' = (text' a)[0 := NUL]\<rparr>, inp)" for k inp
    using dispatch_deliver[OF ne assms(2), of k inp] unfolding cl .
  show "DEST_EMPTY = - 1" by (simp add: DEST_EMPTY_def)
  show "cstr ((text' a)[0 := NUL]) = []" by (rule cstr_cleared)
  assume h: "my_id p = n \<and> incoming e = a \<and> \<not> stop_requested p \<and> \<not> usr1_before e
            \<and> read_full (reads e) False sizeof_apple = Some (0, s1, rs)
            \<and> write_full (writes e) s1 sizeof_apple = Some (0, s2, ws)"
  have nd: "node_dispatch (my_id p) (g_k p) (incoming e) (stdin p) =
           ([Log_received_message n (origin a) (cstr (text' a)), Log_processed n],
            Send \<lparr>dest = DEST_EMPTY, origin = n, text' = (text' a)[0 := NUL]\<rparr>, stdin p)"
    using h d by simp
  from h have 1: "\<not> stop_requested p" and 2: "\<not> usr1_before e"
    and 3: "read_full (reads e) False sizeof_apple = Some (0, s1, rs)"
    and 4: "write_full (writes e) s1 sizeof_apple = Some (0, s2, ws)"
    by simp_all
  show "node_loop p waits (e # es) =
                [Log_received_message n (origin a) (cstr (text' a)), Log_processed n,
                 Wrote \<lparr>dest = DEST_EMPTY, origin = n, text' = (text' a)[0 := NUL]\<rparr>]
                @ node_loop (p\<lparr>stop_requested := s2\<rparr>) waits es"
    unfolding node_loop_pass[OF 1 2 3 nd 4] proc_same_stdin by simp
qed

theorem delivery_clears_apple_witness:
  "(0::int) \<le> 2 \<and> dest \<lparr>dest = 2, origin = 0, text' = ''hi'' @ [NUL]\<rparr> = 2
   \<and> node_dispatch 2 3 \<lparr>dest = 2, origin = 0, text' = ''hi'' @ [NUL]\<rparr> [] =
        ([Log_received_message 2 0 ''hi'', Log_processed 2],
         Send \<lparr>dest = - 1, origin = 2, text' = NUL # ''i'' @ [NUL]\<rparr>, [])
   \<and> cstr (NUL # ''i'' @ [NUL]) = []
   \<and> node_loop \<lparr>my_id = 2, g_k = 3, stop_requested = False, child_pids = [101],
                 read_fd = Some (Pipe_rd 1), write_fd = Some (Pipe_wr 2),
                 open_fds = [Pipe_rd 1, Pipe_wr 2], stdin = []\<rparr> []
        [\<lparr>usr1_before = False, reads = [(False, Ret 1000), (False, Ret 32)],
          incoming = \<lparr>dest = 2, origin = 0, text' = ''hi'' @ [NUL]\<rparr>,
          writes = [(False, Ret 1032)]\<rparr>]
      = [Log_received_message 2 0 ''hi'', Log_processed 2,
         Wrote \<lparr>dest = - 1, origin = 2, text' = NUL # ''i'' @ [NUL]\<rparr>]"
proof -
  let ?a = "\<lparr>dest = 2, origin = 0, text' = ''hi'' @ [NUL]\<rparr>"
  let ?p = "\<lparr>my_id = 2, g_k = 3, stop_requested = False, child_pids = [101],
                 read_fd = Some (Pipe_rd 1), write_fd = Some (Pipe_wr 2),
                 open_fds = [Pipe_rd 1, Pipe_wr 2], stdin = []\<rparr>"
  let ?e = "\<lparr>usr1_before = False, reads = [(False, Ret 1000), (False, Ret 32)],
          incoming = ?a, writes = [(False, Ret 1032)]\<rparr>"
  have h: "(0::int) \<le> 2" "dest ?a = 2" by simp_all
  have r: "read_full (reads ?e) False sizeof_apple = Some (0, False, [])"
    by (simp add: sizeof_apple_def MAX_TEXT_def size_sub_def)
  have w: "write_full (writes ?e) False sizeof_apple = Some (0, False, [])"
    by (simp add: sizeof_apple_def MAX_TEXT_def size_sub_def)
  show ?thesis
    using delivery_clears_apple[OF h, of 3 "[]" "?p" "?e" False "[]" False "[]" "[]" "[]"] r w
    by (simp add: cstr_def DEST_EMPTY_def)
qed

lemma dispatch_eof:
  "dest a = DEST_EMPTY \<Longrightarrow>
     node_dispatch 0 k a [] = ([Log_returned_empty 0, Prompt_destination (k - 1)], Send a, [])"
  by (simp add: node_dispatch_def fgets_def)

lemma strncpy_empty_gen: "cstr ((strncpy old [] (Suc m))[Suc m := NUL]) = []"
  by (simp add: strncpy_def cstr_def)

lemma strncpy_empty: "cstr ((strncpy old [] (MAX_TEXT - 1))[MAX_TEXT - 1 := NUL]) = []"
proof -
  have "MAX_TEXT - 1 = Suc (MAX_TEXT - 2)" by (simp add: MAX_TEXT_def)
  then show ?thesis using strncpy_empty_gen[of old "MAX_TEXT - 2"] by simp
qed


text \<open>
  Claim C4, as amended. End-of-input at the destination prompt: node 0 writes the apple
  it read, still empty, and goes on with its loop. End-of-input at the message prompt,
  after a valid destination \<open>d\<close>: the text is taken to be empty and node 0 injects an
  apple addressed to \<open>d\<close> with the empty string. In both cases the pass of the loop ends
  with a write to the next node, never with \<^verbatim>\<open>raise(SIGINT)\<close>.
\<close>

theorem eof_while_prompting:
  assumes "dest a = DEST_EMPTY"
  shows "node_dispatch 0 k a [] = ([Log_returned_empty 0, Prompt_destination (k - 1)], Send a, [])
       \<and> (my_id p = 0 \<and> stdin p = [] \<and> incoming e = a \<and> \<not> stop_requested p \<and> \<not> usr1_before e
            \<and> read_full (reads e) False sizeof_apple = Some (0, s1, rs)
            \<and> write_full (writes e) s1 sizeof_apple = Some (0, s2, ws)
          \<longrightarrow> node_loop p waits (e # es) =
                [Log_returned_empty 0, Prompt_destination (g_k p - 1), Wrote a]
                @ node_loop (p\<lparr>stop_requested := s2\<rparr>) waits es)
       \<and> (fgets 64 inp = Some (l, []) \<and> parse_destination (chomp (cstr l)) k = Some d
          \<longrightarrow> node_dispatch 0 k a inp =
                ([Log_returned_empty 0, Prompt_destination (k - 1), Prompt_message,
                  Log_injecting 0 d []],
                 Send (a\<lparr>dest := d, origin := 0,
                          text' := (strncpy (text' a) [] (MAX_TEXT - 1))[MAX_TEXT - 1 := NUL]\<rparr>),
                 [])
              \<and> d \<noteq> DEST_EMPTY)"
proof (intro conjI impI)
  show "node_dispatch 0 k a [] = ([Log_returned_empty 0, Prompt_destination (k - 1)], Send a, [])"
    using assms by (rule dispatch_eof)
next
  assume h: "my_id p = 0 \<and> stdin p = [] \<and> incoming e = a \<and> \<not> stop_requested p \<and> \<not> usr1_before e
            \<and> read_full (reads e) False sizeof_apple = Some (0, s1, rs)
            \<and> write_full (writes e) s1 sizeof_apple = Some (0, s2, ws)"
  have nd: "node_dispatch (my_id p) (g_k p) (incoming e) (stdin p) =
              ([Log_returned_empty 0, Prompt_destination (g_k p - 1)], Send a, stdin p)"
    using h dispatch_eof[OF assms, of "g_k p"] by simp
  from h have 1: "\<not> stop_requested p" and 2: "\<not> usr1_before e"
    and 3: "read_full (reads e) False sizeof_apple = Some (0, s1, rs)"
    and 4: "write_full (writes e) s1 sizeof_apple = Some (0, s2, ws)"
    by simp_all
  show "node_loop p waits (e # es) =
                [Log_returned_empty 0, Prompt_destination (g_k p - 1), Wrote a]
                @ node_loop (p\<lparr>stop_requested := s2\<rparr>) waits es"
    unfolding node_loop_pass[OF 1 2 3 nd 4] proc_same_stdin by simp
next
  assume h: "fgets 64 inp = Some (l, []) \<and> parse_destination (chomp (cstr l)) k = Some d"
  then have l: "fgets 64 inp = Some (l, [])"
    and p: "parse_destination (chomp (cstr l)) k = Some d" by simp_all
  have f: "fgets MAX_TEXT [] = None" by (simp add: fgets_def)
  have c: "chomp (cstr []) = []" by (simp add: chomp_def cstr_def)
  show "node_dispatch 0 k a inp =
                ([Log_returned_empty 0, Prompt_destination (k - 1), Prompt_message,
                  Log_injecting 0 d []],
                 Send (a\<lparr>dest := d, origin := 0,
                          text' := (strncpy (text' a) [] (MAX_TEXT - 1))[MAX_TEXT - 1 := NUL]\<rparr>),
                 [])"
    unfolding dispatch_inject[OF assms l p] f
    by (simp add: c strncpy_empty[unfolded One_nat_def])
  show "d \<noteq> DEST_EMPTY"
    using parse_destination_range[OF p] by (auto simp: DEST_EMPTY_def)
qed

lemma seed_addressed:
  "(strncpy (text' seed) [] (MAX_TEXT - 1))[MAX_TEXT - 1 := NUL] = replicate MAX_TEXT NUL"
proof -
  have "strncpy (text' seed) [] (MAX_TEXT - 1) = replicate (MAX_TEXT - 1) NUL @ replicate 1 NUL"
    by (simp add: strncpy_def seed_def MAX_TEXT_def)
  also have "\<dots> = replicate MAX_TEXT NUL"
    unfolding replicate_add[symmetric] by (simp add: MAX_TEXT_def)
  finally show ?thesis by (simp add: MAX_TEXT_def list_update_beyond list_eq_iff_nth_eq nth_list_update)
qed

lemma cstr_replicate_nul: "cstr (replicate n NUL) = []"
  by (cases n) (simp_all add: cstr_def)

lemma fgets_two: "fgets 64 (''2'' @ [NL]) = Some (''2'' @ [NL], [])"
  using fgets_line[of "''2''" 64 "[]"] by simp

lemma parse_two: "parse_destination (chomp (cstr (''2'' @ [NL]))) 3 = Some 2"
  by (simp add: cstr_def chomp_def parse_destination_def strtol_def isspace_def isdigit_def
      digit_val_def LONG_MIN_def LONG_MAX_def)

theorem eof_while_prompting_witness:
  "dest seed = DEST_EMPTY
   \<and> node_dispatch 0 3 seed [] = ([Log_returned_empty 0, Prompt_destination 2], Send seed, [])
   \<and> fgets 64 (''2'' @ [NL]) = Some (''2'' @ [NL], [])
   \<and> parse_destination (chomp (cstr (''2'' @ [NL]))) 3 = Some 2
   \<and> node_dispatch 0 3 seed (''2'' @ [NL]) =
       ([Log_returned_empty 0, Prompt_destination 2, Prompt_message, Log_injecting 0 2 []],
        Send \<lparr>dest = 2, origin = 0, text' = replicate MAX_TEXT NUL\<rparr>, [])
   \<and> node_loop \<lparr>my_id = 0, g_k = 3, stop_requested = False, child_pids = [101, 102],
                 read_fd = Some (Pipe_rd 2), write_fd = Some (Pipe_wr 0),
                 open_fds = [Pipe_wr 0, Pipe_rd 2], stdin = []\<rparr> []
        [\<lparr>usr1_before = False, reads = [(False, Ret 1032)], incoming = seed,
          writes = [(False, Ret 1032)]\<rparr>]
      = [Log_returned_empty 0, Prompt_destination 2, Wrote seed]"
proof -
  let ?p = "\<lparr>my_id = 0, g_k = 3, stop_requested = False, child_pids = [101, 102],
                 read_fd = Some (Pipe_rd 2), write_fd = Some (Pipe_wr 0),
                 open_fds = [Pipe_wr 0, Pipe_rd 2], stdin = []\<rparr>"
  let ?e = "\<lparr>usr1_before = False, reads = [(False, Ret 1032)], incoming = seed,
          writes = [(False, Ret 1032)]\<rparr>"
  have e: "dest seed = DEST_EMPTY" by (simp add: seed_def)
  have r: "read_full (reads ?e) False sizeof_apple = Some (0, False, [])"
    by (simp add: sizeof_apple_def MAX_TEXT_def size_sub_def)
  have w: "write_full (writes ?e) False sizeof_apple = Some (0, False, [])"
    by (simp add: sizeof_apple_def MAX_TEXT_def size_sub_def)
  have s: "seed\<lparr>dest := 2, origin := 0, text' := replicate MAX_TEXT NUL\<rparr>
             = \<lparr>dest = 2, origin = 0, text' = replicate MAX_TEXT NUL\<rparr>"
    by (simp add: seed_def)
  show ?thesis
    using eof_while_prompting[OF e, of 3 "?p" "?e" False "[]" False "[]" "[]" "[]"
        "''2'' @ [NL]" "''2'' @ [NL]" 2] e r w fgets_two parse_two
    unfolding seed_addressed s by simp
qed

text \<open>
  The claim as stated fails: with the console input \<open>2\<close>, a newline and then the end of
  the input, the end of the input is met at the message prompt and node 0 still injects
  an apple addressed to node 2.
\<close>

theorem eof_at_message_prompt_counterexample:
  "fgets 64 (''2'' @ [NL]) = Some (''2'' @ [NL], []) \<and> fgets MAX_TEXT [] = None
   \<and> node_dispatch 0 3 seed (''2'' @ [NL]) =
       ([Log_returned_empty 0, Prompt_destination 2, Prompt_message, Log_injecting 0 2 []],
        Send \<lparr>dest = 2, origin = 0, text' = replicate MAX_TEXT NUL\<rparr>, [])
   \<and> dest \<lparr>dest = 2, origin = 0, text' = replicate MAX_TEXT NUL\<rparr> \<noteq> DEST_EMPTY"
proof -
  have e: "dest seed = DEST_EMPTY" by (simp add: seed_def)
  have f: "fgets MAX_TEXT [] = None" by (simp add: fgets_def)
  have c: "chomp (cstr []) = []" by (simp add: chomp_def cstr_def)
  have s: "seed\<lparr>dest := 2, origin := 0, text' := replicate MAX_TEXT NUL\<rparr>
             = \<lparr>dest = 2, origin = 0, text' = replicate MAX_TEXT NUL\<rparr>"
    by (simp add: seed_def)
  have "node_dispatch 0 3 seed (''2'' @ [NL]) =
       ([Log_returned_empty 0, Prompt_destination 2, Prompt_message, Log_injecting 0 2 []],
        Send \<lparr>dest = 2, origin = 0, text' = replicate MAX_TEXT NUL\<rparr>, [])"
    unfolding dispatch_inject[OF e fgets_two parse_two] f
    by (simp add: c strncpy_empty[unfolded One_nat_def] seed_addressed[unfolded One_nat_def] s
        cstr_replicate_nul)
  then show ?thesis using fgets_two f by (simp add: DEST_EMPTY_def)
qed












lemma size_sub_le: "n \<le> left \<Longrightarrow> size_sub left n = left - n"
  by (simp add: size_sub_def)

lemma read_full_retries:
  "\<forall>c\<in>set pre. retried c \<Longrightarrow> moved pre < left \<Longrightarrow>
     read_full (pre @ rest) False left = read_full rest False (left - moved pre)"
proof (induction pre arbitrary: left)
  case Nil
  then show ?case by simp
next
  case (Cons c pre)
  obtain u r where c: "c = (u, r)" by (cases c)
  show ?case
  proof (cases r)
    case (Ret n)
    with Cons.prems c have l: "left \<noteq> 0" "n \<le> left" "n \<noteq> 0" "\<not> u" "moved pre < left - n"
      by auto
    have "read_full (pre @ rest) False (left - n) = read_full rest False (left - n - moved pre)"
      using Cons.prems l by (intro Cons.IH) auto
    then show ?thesis using l c Ret by (simp add: size_sub_le)
  next
    case (Err e)
    with Cons.prems c have l: "left \<noteq> 0" "e = EINTR" "\<not> u" "moved pre < left" by auto
    have "read_full (pre @ rest) False left = read_full rest False (left - moved pre)"
      using Cons.prems l by (intro Cons.IH) auto
    then show ?thesis using l c Err by simp
  qed
qed

lemma write_full_retries:
  "\<forall>c\<in>set pre. retried c \<Longrightarrow> moved pre < left \<Longrightarrow>
     write_full (pre @ rest) stop left = write_full rest stop (left - moved pre)"
proof (induction pre arbitrary: left)
  case Nil
  then show ?case by simp
next
  case (Cons c pre)
  obtain u r where c: "c = (u, r)" by (cases c)
  show ?case
  proof (cases r)
    case (Ret n)
    with Cons.prems c have l: "left \<noteq> 0" "n \<le> left" "n \<noteq> 0" "\<not> u" "moved pre < left - n"
      by auto
    have "write_full (pre @ rest) stop (left - n) = write_full rest stop (left - n - moved pre)"
      using Cons.prems l by (intro Cons.IH) auto
    then show ?thesis using l c Ret by (simp add: size_sub_le)
  next
    case (Err e)
    with Cons.prems c have l: "left \<noteq> 0" "e = EINTR" "\<not> u" "moved pre < left" by auto
    have "write_full (pre @ rest) stop left = write_full rest stop (left - moved pre)"
      using Cons.prems l by (intro Cons.IH) auto
    then show ?thesis using l c Err by simp
  qed
qed

lemma read_full_done: "read_full rest stop 0 = Some (0, stop, rest)"
  by (cases rest) auto

lemma write_full_done: "write_full rest stop 0 = Some (0, stop, rest)"
  by (cases rest) auto

lemma node_loop_read_fails:
  assumes "\<not> stop_requested p" and "\<not> usr1_before e"
    and "read_full (reads e) False sizeof_apple = Some (- 1, s1, rs)"
  shows "node_loop p waits (e # es) = graceful_exit p"
  using assms by simp

lemma node_loop_write_fails:
  assumes "\<not> stop_requested p" and "\<not> usr1_before e"
    and "read_full (reads e) False sizeof_apple = Some (0, s1, rs)"
    and "node_dispatch (my_id p) (g_k p) (incoming e) (stdin p) = (evs, Send a', inp')"
    and "write_full (writes e) s1 sizeof_apple = Some (- 1, s2, ws)"
  shows "node_loop p waits (e # es) = evs @ graceful_exit p"
  using assms by simp

lemma dispatch_quiet:
  "node_dispatch n k a inp = (evs, st, inp') \<Longrightarrow>
     \<forall>ev\<in>set evs. (\<forall>b. ev \<noteq> Wrote b) \<and> (\<forall>pid. ev \<noteq> Kill_SIGUSR1 pid)"
  by (auto simp: node_dispatch_def Let_def split: if_splits option.splits prod.splits)

lemma graceful_exit_open:
  "read_fd p = Some r \<Longrightarrow> write_fd p = Some w \<Longrightarrow>
     graceful_exit p = [Log_exiting (my_id p), Close r, Close w, Exit_process 0]"
  by (simp add: graceful_exit_def)

text \<open>
  Claim C7. Let \<open>pre\<close> be calls that moved part of the record or were interrupted (with
  no stop request), fewer than \<open>left\<close> bytes in all. Then \<^verbatim>\<open>read_full\<close> and
  \<^verbatim>\<open>write_full\<close> call again: they have not returned when the calls end there, and they
  return 0 right after the call that moves the last byte. A \<^verbatim>\<open>read\<close> that returns 0
  bytes, and a \<^verbatim>\<open>read\<close> or \<^verbatim>\<open>write\<close> that fails with an \<^verbatim>\<open>errno\<close> other than
  \<^verbatim>\<open>EINTR\<close>, make them return \<open>-1\<close>. In \<^verbatim>\<open>node_loop\<close>, a failed read ends the process
  at once: it prints that it exits, closes its read end and its write end and exits,
  whatever else the environment holds; a failed write does the same after what the pass
  had printed, with no record written and no signal sent to another process.
\<close>

theorem transport_errors_exit:
  assumes "\<forall>c\<in>set pre. retried c" and "moved pre < left"
  shows "read_full pre False left = None \<and> write_full pre stop left = None
       \<and> (0 < n \<and> moved pre + n = left
          \<longrightarrow> read_full (pre @ (False, Ret n) # rest) False left = Some (0, False, rest)
            \<and> write_full (pre @ (False, Ret n) # rest) stop left = Some (0, stop, rest))
       \<and> read_full (pre @ (u, Ret 0) # rest) False left = Some (- 1, u, rest)
       \<and> (err \<noteq> EINTR
          \<longrightarrow> read_full (pre @ (u, Err err) # rest) False left = Some (- 1, u, rest)
            \<and> write_full (pre @ (u, Err err) # rest) stop left = Some (- 1, stop \<or> u, rest))
       \<and> (\<not> stop_requested p \<and> \<not> usr1_before e \<and> read_fd p = Some r \<and> write_fd p = Some w
            \<and> read_full (reads e) False sizeof_apple = Some (- 1, s1, rs)
          \<longrightarrow> node_loop p waits (e # es) =
                [Log_exiting (my_id p), Close r, Close w, Exit_process 0])
       \<and> (\<not> stop_requested p \<and> \<not> usr1_before e \<and> read_fd p = Some r \<and> write_fd p = Some w
            \<and> read_full (reads e) False sizeof_apple = Some (0, s1, rs)
            \<and> node_dispatch (my_id p) (g_k p) (incoming e) (stdin p) = (evs, Send a', inp')
            \<and> write_full (writes e) s1 sizeof_apple = Some (- 1, s2, ws)
          \<longrightarrow> node_loop p waits (e # es) =
                evs @ [Log_exiting (my_id p), Close r, Close w, Exit_process 0]
            \<and> (\<forall>ev\<in>set evs. (\<forall>b. ev \<noteq> Wrote b) \<and> (\<forall>pid. ev \<noteq> Kill_SIGUSR1 pid)))"
proof (intro conjI impI)
  have l: "left - moved pre \<noteq> 0" using assms(2) by simp
  show "read_full pre False left = None"
    using read_full_retries[OF assms, of "[]"] l by simp
  show "write_full pre stop left = None"
    using write_full_retries[OF assms, of "[]" stop] l by simp
  show "read_full (pre @ (u, Ret 0) # rest) False left = Some (- 1, u, rest)"
    using read_full_retries[OF assms, of "(u, Ret 0) # rest"] l by simp
next
  assume h: "0 < n \<and> moved pre + n = left"
  then have l: "left - moved pre = n" "n \<noteq> 0" by auto
  show "read_full (pre @ (False, Ret n) # rest) False left = Some (0, False, rest)"
    using read_full_retries[OF assms, of "(False, Ret n) # rest"] l
    by (simp add: size_sub_le read_full_done)
  show "write_full (pre @ (False, Ret n) # rest) stop left = Some (0, stop, rest)"
    using write_full_retries[OF assms, of "(False, Ret n) # rest" stop] l
    by (simp add: size_sub_le write_full_done)
next
  assume h: "err \<noteq> EINTR"
  have l: "left - moved pre \<noteq> 0" using assms(2) by simp
  show "read_full (pre @ (u, Err err) # rest) False left = Some (- 1, u, rest)"
    using read_full_retries[OF assms, of "(u, Err err) # rest"] l h by simp
  show "write_full (pre @ (u, Err err) # rest) stop left = Some (- 1, stop \<or> u, rest)"
    using write_full_retries[OF assms, of "(u, Err err) # rest" stop] l h by simp
next
  assume h: "\<not> stop_requested p \<and> \<not> usr1_before e \<and> read_fd p = Some r \<and> write_fd p = Some w
            \<and> read_full (reads e) False sizeof_apple = Some (- 1, s1, rs)"
  then have 1: "\<not> stop_requested p" and 2: "\<not> usr1_before e"
    and 3: "read_fd p = Some r" and 4: "write_fd p = Some w"
    and 5: "read_full (reads e) False sizeof_apple = Some (- 1, s1, rs)"
    by simp_all
  show "node_loop p waits (e # es) = [Log_exiting (my_id p), Close r, Close w, Exit_process 0]"
    unfolding node_loop_read_fails[OF 1 2 5] graceful_exit_open[OF 3 4] ..
next
  assume h: "\<not> stop_requested p \<and> \<not> usr1_before e \<and> read_fd p = Some r \<and> write_fd p = Some w
            \<and> read_full (reads e) False sizeof_apple = Some (0, s1, rs)
            \<and> node_dispatch (my_id p) (g_k p) (incoming e) (stdin p) = (evs, Send a', inp')
            \<and> write_full (writes e) s1 sizeof_apple = Some (- 1, s2, ws)"
  then have 1: "\<not> stop_requested p" and 2: "\<not> usr1_before e"
    and 3: "read_fd p = Some r" and 4: "write_fd p = Some w"
    and 5: "read_full (reads e) False sizeof_apple = Some (0, s1, rs)"
    and 6: "node_dispatch (my_id p) (g_k p) (incoming e) (stdin p) = (evs, Send a', inp')"
    and 7: "write_full (writes e) s1 sizeof_apple = Some (- 1, s2, ws)"
    by simp_all
  show "node_loop p waits (e # es) =
          evs @ [Log_exiting (my_id p), Close r, Close w, Exit_process 0]"
    unfolding node_loop_write_fails[OF 1 2 5 6 7] graceful_exit_open[OF 3 4] ..
  show "\<forall>ev\<in>set evs. (\<forall>b. ev \<noteq> Wrote b) \<and> (\<forall>pid. ev \<noteq> Kill_SIGUSR1 pid)"
    using 6 by (rule dispatch_quiet)
qed


theorem transport_errors_exit_witness:
  "moved [(False, Ret 1000), (False, Err EINTR)] < sizeof_apple
   \<and> read_full [(False, Ret 1000), (False, Err EINTR)] False sizeof_apple = None
   \<and> write_full [(False, Ret 1000), (False, Err EINTR)] False sizeof_apple = None
   \<and> read_full [(False, Ret 1000), (False, Err EINTR), (False, Ret 32)] False sizeof_apple
        = Some (0, False, [])
   \<and> write_full [(False, Ret 1000), (False, Err EINTR), (False, Ret 32)] False sizeof_apple
        = Some (0, False, [])
   \<and> read_full [(False, Ret 1000), (False, Err EINTR), (False, Ret 0)] False sizeof_apple
        = Some (- 1, False, [])
   \<and> write_full [(False, Ret 1000), (False, Err EINTR), (False, Err EPIPE)] False sizeof_apple
        = Some (- 1, False, [])
   \<and> node_loop \<lparr>my_id = 1, g_k = 3, stop_requested = False, child_pids = [],
                 read_fd = Some (Pipe_rd 0), write_fd = Some (Pipe_wr 1),
                 open_fds = [Pipe_rd 0, Pipe_wr 1], stdin = []\<rparr> []
        [\<lparr>usr1_before = False, reads = [(False, Ret 1000), (False, Ret 0)], incoming = seed,
          writes = [(False, Ret 1032)]\<rparr>,
         \<lparr>usr1_before = False, reads = [(False, Ret 1032)], incoming = seed,
          writes = [(False, Ret 1032)]\<rparr>]
      = [Log_exiting 1, Close (Pipe_rd 0), Close (Pipe_wr 1), Exit_process 0]
   \<and> node_loop \<lparr>my_id = 1, g_k = 3, stop_requested = False, child_pids = [],
                 read_fd = Some (Pipe_rd 0), write_fd = Some (Pipe_wr 1),
                 open_fds = [Pipe_rd 0, Pipe_wr 1], stdin = []\<rparr> []
        [\<lparr>usr1_before = False, reads = [(False, Ret 1032)], incoming = seed,
          writes = [(False, Ret 1000), (False, Err EPIPE)]\<rparr>,
         \<lparr>usr1_before = False, reads = [(False, Ret 1032)], incoming = seed,
          writes = [(False, Ret 1032)]\<rparr>]
      = [Log_received_empty 1, Log_exiting 1, Close (Pipe_rd 0), Close (Pipe_wr 1),
         Exit_process 0]"
proof -
  let ?pre = "[(False, Ret 1000), (False, Err EINTR)]"
  let ?p = "\<lparr>my_id = 1, g_k = 3, stop_requested = False, child_pids = [],
                 read_fd = Some (Pipe_rd 0), write_fd = Some (Pipe_wr 1),
                 open_fds = [Pipe_rd 0, Pipe_wr 1], stdin = []\<rparr>"
  let ?e1 = "\<lparr>usr1_before = False, reads = [(False, Ret 1000), (False, Ret 0)], incoming = seed,
          writes = [(False, Ret 1032)]\<rparr>"
  let ?e2 = "\<lparr>usr1_before = False, reads = [(False, Ret 1032)], incoming = seed,
          writes = [(False, Ret 1000), (False, Err EPIPE)]\<rparr>"
  let ?e3 = "\<lparr>usr1_before = False, reads = [(False, Ret 1032)], incoming = seed,
          writes = [(False, Ret 1032)]\<rparr>"
  have a: "\<forall>c\<in>set ?pre. retried c" by simp
  have b: "moved ?pre < sizeof_apple" by (simp add: sizeof_apple_def MAX_TEXT_def)
  have r1: "read_full (reads ?e1) False sizeof_apple = Some (- 1, False, [])"
    by (simp add: sizeof_apple_def MAX_TEXT_def size_sub_def)
  have r2: "read_full (reads ?e2) False sizeof_apple = Some (0, False, [])"
    by (simp add: sizeof_apple_def MAX_TEXT_def size_sub_def)
  have w2: "write_full (writes ?e2) False sizeof_apple = Some (- 1, False, [])"
    by (simp add: sizeof_apple_def MAX_TEXT_def size_sub_def)
  have d: "node_dispatch (my_id ?p) (g_k ?p) (incoming ?e2) (stdin ?p)
             = ([Log_received_empty 1], Send seed, [])"
    by (simp add: node_dispatch_def seed_def DEST_EMPTY_def)
  have n: "(0::nat) < 32 \<and> moved ?pre + 32 = sizeof_apple"
    by (simp add: sizeof_apple_def MAX_TEXT_def)
  show ?thesis
    using transport_errors_exit[OF a b, where stop = False and n = 32 and rest = "[]"
        and u = False and err = EPIPE and p = "?p" and e = "?e1" and r = "Pipe_rd 0"
        and w = "Pipe_wr 1" and ?s1.0 = False and rs = "[]" and waits = "[]" and es = "[?e3]"]
      transport_errors_exit[OF a b, where stop = False and n = 32 and rest = "[]"
        and u = False and err = EPIPE and p = "?p" and e = "?e2" and r = "Pipe_rd 0"
        and w = "Pipe_wr 1" and ?s1.0 = False and rs = "[]" and waits = "[]" and es = "[?e3]"
        and evs = "[Log_received_empty 1]" and a' = seed and inp' = "[]" and ?s2.0 = False
        and ws = "[]"]
      b r1 r2 w2 d n
    by simp
qed

lemma make_pipes_events:
  "make_pipes pipe_ok js = (evs, ok) \<Longrightarrow> \<exists>js'. evs = map Sys_pipe js'"
proof (induction js arbitrary: evs ok)
  case Nil
  then show ?case by simp
next
  case (Cons j js)
  show ?case
  proof (cases "pipe_ok j")
    case False
    with Cons.prems show ?thesis by simp
  next
    case True
    obtain evs' ok' where m: "make_pipes pipe_ok js = (evs', ok')" by (cases "make_pipes pipe_ok js")
    from Cons.IH[OF m] obtain js' where "evs' = map Sys_pipe js'" by blast
    with Cons.prems True m have "evs = map Sys_pipe (j # js')" by simp
    then show ?thesis by blast
  qed
qed

lemma fork_children_events:
  "fork_children fork_ret k inp pids is = (evs, cs, r) \<Longrightarrow>
     \<exists>fs. evs = map (\<lambda>(i, pid). Sys_fork i pid) fs"
proof (induction "is" arbitrary: evs cs r pids)
  case Nil
  then show ?case by simp
next
  case (Cons i "is")
  show ?case
  proof (cases "fork_ret i < 0")
    case True
    with Cons.prems show ?thesis by simp
  next
    case False
    obtain evs' cs' r' where m: "fork_children fork_ret k inp (pids @ [fork_ret i]) is = (evs', cs', r')"
      by (cases "fork_children fork_ret k inp (pids @ [fork_ret i]) is")
    from Cons.IH[OF m] obtain fs where "evs' = map (\<lambda>(i, pid). Sys_fork i pid) fs" by blast
    with Cons.prems False m have "evs = map (\<lambda>(i, pid). Sys_fork i pid) ((i, fork_ret i) # fs)"
      by (simp add: Let_def)
    then show ?thesis by blast
  qed
qed

lemma main_startup_valid:
  assumes "scanf_d inp = (Scan_int k, inp1)" and "2 \<le> k" and "k \<le> MAX_K"
  shows "main_startup inp pipe_ok fork_ret =
     (case make_pipes pipe_ok [0..k - 1] of
        (pevs, False) \<Rightarrow> (pevs, Returned 1)
      | (pevs, True) \<Rightarrow>
          (case fork_children fork_ret k (skip_line inp1) [] [1..k - 1] of
             (fevs, cs, None) \<Rightarrow> (pevs @ fevs, Returned 1)
           | (fevs, cs, Some pids) \<Rightarrow>
               (pevs @ fevs,
                Ring_up \<lparr>my_id = 0, g_k = k, stop_requested = False, child_pids = pids,
                         read_fd = Some (Pipe_rd (c_rem (k - 1) k)),
                         write_fd = Some (Pipe_wr 0),
                         open_fds = parent_close_unused k (all_pipes k),
                         stdin = skip_line inp1\<rparr> cs)))"
  using assms by (simp add: main_startup_def Let_def)

lemma main_startup_no_complaint:
  assumes "scanf_d inp = (Scan_int k, inp1)" and "2 \<le> k" and "k \<le> MAX_K"
  shows "Log_invalid_k \<notin> set (fst (main_startup inp pipe_ok fork_ret))"
proof -
  obtain pevs ok where p: "make_pipes pipe_ok [0..k - 1] = (pevs, ok)"
    by (cases "make_pipes pipe_ok [0..k - 1]")
  obtain fevs cs r where f: "fork_children fork_ret k (skip_line inp1) [] [1..k - 1] = (fevs, cs, r)"
    by (cases "fork_children fork_ret k (skip_line inp1) [] [1..k - 1]")
  from make_pipes_events[OF p] obtain js' where pe: "pevs = map Sys_pipe js'" by blast
  from fork_children_events[OF f] obtain fs where fe: "fevs = map (\<lambda>(i, pid). Sys_fork i pid) fs"
    by blast
  have "Log_invalid_k \<notin> set pevs" "Log_invalid_k \<notin> set fevs"
    unfolding pe fe by auto
  then show ?thesis
    unfolding main_startup_valid[OF assms] p f
    by (cases ok; cases r) simp_all
qed

lemma main_startup_first_pipe:
  assumes "scanf_d inp = (Scan_int k, inp1)" and "2 \<le> k" and "k \<le> MAX_K" and "pipe_ok 0"
  shows "hd (fst (main_startup inp pipe_ok fork_ret)) = Sys_pipe 0"
proof -
  have u: "[0..k - 1] = 0 # [1..k - 1]" using assms(2) by (simp add: upto_rec1)
  obtain pevs ok where p: "make_pipes pipe_ok [1..k - 1] = (pevs, ok)"
    by (cases "make_pipes pipe_ok [1..k - 1]")
  obtain fevs cs r where f: "fork_children fork_ret k (skip_line inp1) [] [1..k - 1] = (fevs, cs, r)"
    by (cases "fork_children fork_ret k (skip_line inp1) [] [1..k - 1]")
  show ?thesis
    unfolding main_startup_valid[OF assms(1,2,3)] u f
    using assms(4) p by (cases ok; cases r) simp_all
qed

lemma c_rem_nonneg: "0 \<le> a \<Longrightarrow> 0 < b \<Longrightarrow> c_rem a b = a mod b"
  by (cases "a = 0") (simp_all add: c_rem_def)

lemma c_rem_pred: "0 \<le> i \<Longrightarrow> 2 \<le> k \<Longrightarrow> c_rem (i - 1 + k) k = (i - 1) mod k"
proof -
  assume a: "0 \<le> i" "2 \<le> k"
  then have "c_rem (i - 1 + k) k = (i - 1 + k) mod k" by (intro c_rem_nonneg) simp_all
  then show ?thesis by simp
qed

lemma pred_not_self:
  fixes i k :: int
  assumes "2 \<le> k" "0 \<le> i" "i < k"
  shows "(i - 1) mod k \<noteq> i"
proof
  assume "(i - 1) mod k = i"
  then have "(i - 1) mod k = i mod k" using assms by simp
  then have "k dvd (i - 1 - i)" by (simp add: mod_eq_dvd_iff)
  then have "k dvd 1" by simp
  then show False using assms(1) by (simp add: zdvd1_eq)
qed

lemma pred_iff_succ:
  fixes i j k :: int
  assumes "2 \<le> k" "0 \<le> i" "i < k" "0 \<le> j" "j < k"
  shows "(i - 1) mod k = j \<longleftrightarrow> i = (j + 1) mod k"
proof
  assume "(i - 1) mod k = j"
  then have "(j + 1) mod k = ((i - 1) mod k + 1) mod k" by simp
  also have "\<dots> = (i - 1 + 1) mod k" by (simp add: mod_add_left_eq)
  also have "\<dots> = i" using assms by simp
  finally show "i = (j + 1) mod k" by simp
next
  assume "i = (j + 1) mod k"
  then have "(i - 1) mod k = ((j + 1) mod k - 1) mod k" by simp
  also have "\<dots> = (j + 1 - 1) mod k" by (simp add: mod_diff_left_eq)
  also have "\<dots> = j" using assms by simp
  finally show "(i - 1) mod k = j" .
qed

text \<open>The loop that closes the unused ends keeps exactly two kinds of ends.\<close>

lemma close_loop_filter:
  "foldl (\<lambda>fds j.
            let fds1 = (if j = rp then fds else close_fd (Pipe_rd j) fds)
            in if j = i then fds1 else close_fd (Pipe_wr j) fds1) fds js
   = filter (\<lambda>f. case f of Pipe_rd j \<Rightarrow> j \<notin> set js \<or> j = rp
                          | Pipe_wr j \<Rightarrow> j \<notin> set js \<or> j = i) fds"
proof (induction js arbitrary: fds)
  case Nil
  show ?case by (simp add: filter_id_conv split: fd.splits)
next
  case (Cons j js)
  show ?case
    unfolding foldl_Cons Cons.IH
    by (auto simp: Let_def close_fd_def removeAll_filter_not_eq
        intro!: filter_cong split: fd.splits)
qed

lemma child_close_unused_filter:
  "child_close_unused k i fds
   = filter (\<lambda>f. case f of Pipe_rd j \<Rightarrow> j \<notin> set [0..k - 1] \<or> j = c_rem (i - 1 + k) k
                          | Pipe_wr j \<Rightarrow> j \<notin> set [0..k - 1] \<or> j = i) fds"
  unfolding child_close_unused_def by (rule close_loop_filter)

lemma parent_close_unused_eq:
  assumes "2 \<le> k"
  shows "parent_close_unused k fds = child_close_unused k 0 fds"
proof -
  have r: "c_rem (0 - 1 + k) k = k - 1" using c_rem_nonneg[of "k - 1" k] assms by (simp add: zmod_minus1)
  have "(\<lambda>fds j. let fds1 = (if j \<noteq> k - 1 then close_fd (Pipe_rd j) fds else fds)
                  in if j \<noteq> 0 then close_fd (Pipe_wr j) fds1 else fds1)
      = (\<lambda>fds j. let fds1 = (if j = c_rem (0 - 1 + k) k then fds else close_fd (Pipe_rd j) fds)
                  in if j = 0 then fds1 else close_fd (Pipe_wr j) fds1)"
    unfolding r by (intro ext) (simp add: Let_def)
  then show ?thesis
    unfolding parent_close_unused_def child_close_unused_def by simp
qed

lemma all_pipes_set: "set (all_pipes k) = Pipe_rd ` {0..k - 1} \<union> Pipe_wr ` {0..k - 1}"
  by (auto simp: all_pipes_def)

lemma pipes_distinct:
  "distinct js \<Longrightarrow> distinct (concat (map (\<lambda>j. [Pipe_rd j, Pipe_wr j]) js))"
  by (induction js) auto

lemma all_pipes_distinct: "distinct (all_pipes k)"
  unfolding all_pipes_def by (rule pipes_distinct) simp

lemma node_open_fds:
  assumes "2 \<le> k" "0 \<le> i" "i < k"
  shows "set (child_close_unused k i (all_pipes k)) = {Pipe_rd ((i - 1) mod k), Pipe_wr i}"
    and "distinct (child_close_unused k i (all_pipes k))"
proof -
  have r: "c_rem (i - 1 + k) k = (i - 1) mod k" using c_rem_pred assms by simp
  have m: "0 \<le> (i - 1) mod k" "(i - 1) mod k < k" using assms by simp_all
  have "f \<in> set (child_close_unused k i (all_pipes k))
          \<longleftrightarrow> f = Pipe_rd ((i - 1) mod k) \<or> f = Pipe_wr i" for f
    unfolding child_close_unused_filter r using assms m
    by (cases f) (auto simp: all_pipes_set)
  then show "set (child_close_unused k i (all_pipes k)) = {Pipe_rd ((i - 1) mod k), Pipe_wr i}"
    by blast
  show "distinct (child_close_unused k i (all_pipes k))"
    unfolding child_close_unused_filter by (simp add: all_pipes_distinct)
qed


lemma make_pipes_all:
  "\<forall>j\<in>set js. pipe_ok j \<Longrightarrow> make_pipes pipe_ok js = (map Sys_pipe js, True)"
  by (induction js) auto

lemma fork_children_all:
  shows "\<forall>i\<in>set is. 0 < fork_ret i \<Longrightarrow>
         \<exists>cs. fork_children fork_ret k inp pids is
            = (map (\<lambda>i. Sys_fork i (fork_ret i)) is, cs, Some (pids @ map fork_ret is))
          \<and> map my_id cs = is
          \<and> (\<forall>c\<in>set cs. read_fd c = Some (Pipe_rd (c_rem (my_id c - 1 + k) k))
                \<and> write_fd c = Some (Pipe_wr (my_id c))
                \<and> open_fds c = child_close_unused k (my_id c) (all_pipes k))"
proof (induction "is" arbitrary: pids)
  case Nil
  show ?case by simp
next
  case (Cons i "is")
  from Cons.prems have "\<forall>i\<in>set is. 0 < fork_ret i" by simp
  from Cons.IH[OF this, of "pids @ [fork_ret i]"] obtain cs where
    f: "fork_children fork_ret k inp (pids @ [fork_ret i]) is
          = (map (\<lambda>i. Sys_fork i (fork_ret i)) is, cs, Some ((pids @ [fork_ret i]) @ map fork_ret is))"
    and m: "map my_id cs = is"
    and c: "\<forall>c\<in>set cs. read_fd c = Some (Pipe_rd (c_rem (my_id c - 1 + k) k))
                \<and> write_fd c = Some (Pipe_wr (my_id c))
                \<and> open_fds c = child_close_unused k (my_id c) (all_pipes k)"
    by blast
  have nn: "\<not> fork_ret i < 0" using Cons.prems by (simp add: not_less less_imp_le)
  let ?child = "\<lparr>my_id = i, g_k = k, stop_requested = False, child_pids = pids,
                  read_fd = Some (Pipe_rd (c_rem (i - 1 + k) k)),
                  write_fd = Some (Pipe_wr i),
                  open_fds = child_close_unused k i (all_pipes k),
                  stdin = inp\<rparr>"
  show ?case
  proof (intro exI[of _ "?child # cs"] conjI)
    show "fork_children fork_ret k inp pids (i # is)
          = (map (\<lambda>i. Sys_fork i (fork_ret i)) (i # is), ?child # cs,
             Some (pids @ map fork_ret (i # is)))"
      using nn f by (simp add: Let_def)
    show "map my_id (?child # cs) = i # is" using m by simp
    show "\<forall>c\<in>set (?child # cs). read_fd c = Some (Pipe_rd (c_rem (my_id c - 1 + k) k))
                \<and> write_fd c = Some (Pipe_wr (my_id c))
                \<and> open_fds c = child_close_unused k (my_id c) (all_pipes k)"
      using c by simp
  qed
qed

lemma node_wired:
  assumes k: "2 \<le> k" and i: "0 \<le> my_id q" "my_id q < k"
    and r: "read_fd q = Some (Pipe_rd (c_rem (my_id q - 1 + k) k))"
    and w: "write_fd q = Some (Pipe_wr (my_id q))"
    and o: "open_fds q = child_close_unused k (my_id q) (all_pipes k)"
  shows "read_fd q = Some (Pipe_rd ((my_id q - 1) mod k))
          \<and> write_fd q = Some (Pipe_wr (my_id q))
          \<and> distinct (open_fds q)
          \<and> set (open_fds q) = {Pipe_rd ((my_id q - 1) mod k), Pipe_wr (my_id q)}
          \<and> (\<forall>j\<in>set [0..k - 1].
               (Pipe_wr j \<in> set (open_fds q) \<longleftrightarrow> my_id q = j)
               \<and> (Pipe_rd j \<in> set (open_fds q) \<longleftrightarrow> my_id q = next_node k j)
               \<and> \<not> (Pipe_rd j \<in> set (open_fds q) \<and> Pipe_wr j \<in> set (open_fds q)))"
proof (intro conjI ballI)
  show "read_fd q = Some (Pipe_rd ((my_id q - 1) mod k))"
    using r c_rem_pred[OF i(1) k] by simp
  show "write_fd q = Some (Pipe_wr (my_id q))" by (rule w)
  show "distinct (open_fds q)" unfolding o by (rule node_open_fds(2)[OF k i])
  show s: "set (open_fds q) = {Pipe_rd ((my_id q - 1) mod k), Pipe_wr (my_id q)}"
    unfolding o by (rule node_open_fds(1)[OF k i])
  fix j assume "j \<in> set [0..k - 1]"
  then have j: "0 \<le> j" "j < k" by simp_all
  show "Pipe_wr j \<in> set (open_fds q) \<longleftrightarrow> my_id q = j" unfolding s by auto
  show "Pipe_rd j \<in> set (open_fds q) \<longleftrightarrow> my_id q = next_node k j"
    unfolding s next_node_def using pred_iff_succ[OF k i j] by auto
  show "\<not> (Pipe_rd j \<in> set (open_fds q) \<and> Pipe_wr j \<in> set (open_fds q))"
    unfolding s using pred_not_self[OF k i] by auto
qed

text \<open>
  Claim C8. For a ring size \<open>k\<close> in \<open>[2, MAX_K]\<close> read from the console, when every
  \<^verbatim>\<open>pipe\<close> and every \<^verbatim>\<open>fork\<close> succeeds (in the parent \<^verbatim>\<open>fork\<close> then returns
  a positive process id), \<^verbatim>\<open>main\<close> makes exactly the \<open>k\<close> pipes
  \<open>0, \<dots>, k - 1\<close>, forks the children \<open>1, \<dots>, k - 1\<close>, and leaves the \<open>k\<close> processes
  wired as the specification asks: each holds exactly the read end of the edge before it
  and the write end of its own edge, edge \<open>j\<close> is written only by node \<open>j\<close> and read only
  by node \<open>(j + 1) mod k\<close>, and no process holds both ends of an edge.
\<close>

theorem ring_wiring:
  assumes "2 \<le> k" and "k \<le> MAX_K" and "fst (scanf_d inp) = Scan_int k"
    and "\<forall>j\<in>set [0..k - 1]. pipe_ok j" and "\<forall>i\<in>set [1..k - 1]. 0 < fork_ret i"
  shows "fst (main_startup inp pipe_ok fork_ret)
           = map Sys_pipe [0..k - 1] @ map (\<lambda>i. Sys_fork i (fork_ret i)) [1..k - 1]
       \<and> ring_wired k (processes (snd (main_startup inp pipe_ok fork_ret)))"
proof -
  obtain inp1 where s: "scanf_d inp = (Scan_int k, inp1)"
    using assms(3) by (cases "scanf_d inp") auto
  from fork_children_all[OF assms(5), where k = k and inp = "skip_line inp1" and pids = "[]"]
  obtain cs where
    f: "fork_children fork_ret k (skip_line inp1) [] [1..k - 1]
          = (map (\<lambda>i. Sys_fork i (fork_ret i)) [1..k - 1], cs, Some ([] @ map fork_ret [1..k - 1]))"
    and m: "map my_id cs = [1..k - 1]"
    and c: "\<forall>c\<in>set cs. read_fd c = Some (Pipe_rd (c_rem (my_id c - 1 + k) k))
                \<and> write_fd c = Some (Pipe_wr (my_id c))
                \<and> open_fds c = child_close_unused k (my_id c) (all_pipes k)"
    by blast
  let ?p = "\<lparr>my_id = 0, g_k = k, stop_requested = False,
              child_pids = [] @ map fork_ret [1..k - 1],
              read_fd = Some (Pipe_rd (c_rem (k - 1) k)),
              write_fd = Some (Pipe_wr 0),
              open_fds = parent_close_unused k (all_pipes k),
              stdin = skip_line inp1\<rparr>"
  have ms: "main_startup inp pipe_ok fork_ret =
          (map Sys_pipe [0..k - 1] @ map (\<lambda>i. Sys_fork i (fork_ret i)) [1..k - 1], Ring_up ?p cs)"
    unfolding main_startup_valid[OF s assms(1,2)] make_pipes_all[OF assms(4)] f by simp
  have ids: "map my_id (?p # cs) = [0..k - 1]"
    using m assms(1) by (simp add: upto_rec1[of 0 "k - 1"])
  have pw: "0 \<le> my_id ?p" "my_id ?p < k"
      "read_fd ?p = Some (Pipe_rd (c_rem (my_id ?p - 1 + k) k))"
      "write_fd ?p = Some (Pipe_wr (my_id ?p))"
      "open_fds ?p = child_close_unused k (my_id ?p) (all_pipes k)"
    using assms(1) by (simp_all add: parent_close_unused_eq)
  have "read_fd q = Some (Pipe_rd ((my_id q - 1) mod k))
          \<and> write_fd q = Some (Pipe_wr (my_id q))
          \<and> distinct (open_fds q)
          \<and> set (open_fds q) = {Pipe_rd ((my_id q - 1) mod k), Pipe_wr (my_id q)}
          \<and> (\<forall>j\<in>set [0..k - 1].
               (Pipe_wr j \<in> set (open_fds q) \<longleftrightarrow> my_id q = j)
               \<and> (Pipe_rd j \<in> set (open_fds q) \<longleftrightarrow> my_id q = next_node k j)
               \<and> \<not> (Pipe_rd j \<in> set (open_fds q) \<and> Pipe_wr j \<in> set (open_fds q)))"
    if q: "q \<in> set (?p # cs)" for q
  proof -
    have "my_id q \<in> my_id ` set (?p # cs)" using q by (rule imageI)
    then have "my_id q \<in> set (map my_id (?p # cs))" by (simp only: set_map)
    then have i: "0 \<le> my_id q" "my_id q < k" unfolding ids by simp_all
    have rw: "read_fd q = Some (Pipe_rd (c_rem (my_id q - 1 + k) k))
                \<and> write_fd q = Some (Pipe_wr (my_id q))
                \<and> open_fds q = child_close_unused k (my_id q) (all_pipes k)"
    proof (cases "q = ?p")
      case True
      then show ?thesis using pw by simp
    next
      case False
      with q have "q \<in> set cs" by simp
      with c show ?thesis by blast
    qed
    from rw have r: "read_fd q = Some (Pipe_rd (c_rem (my_id q - 1 + k) k))"
      and w: "write_fd q = Some (Pipe_wr (my_id q))"
      and o: "open_fds q = child_close_unused k (my_id q) (all_pipes k)" by simp_all
    show ?thesis by (rule node_wired[OF assms(1) i r w o])
  qed
  then have "ring_wired k (?p # cs)"
    unfolding ring_wired_def using ids by blast
  then show ?thesis unfolding ms by simp
qed


theorem ring_wiring_witness:
  "(2::int) \<le> 2 \<and> 2 \<le> MAX_K \<and> fst (scanf_d (''2'' @ [NL])) = Scan_int 2
   \<and> main_startup (''2'' @ [NL]) (\<lambda>j. True) (\<lambda>i. 100 + i) =
       ([Sys_pipe 0, Sys_pipe 1, Sys_fork 1 101],
        Ring_up \<lparr>my_id = 0, g_k = 2, stop_requested = False, child_pids = [101],
                 read_fd = Some (Pipe_rd 1), write_fd = Some (Pipe_wr 0),
                 open_fds = [Pipe_wr 0, Pipe_rd 1], stdin = []\<rparr>
                [\<lparr>my_id = 1, g_k = 2, stop_requested = False, child_pids = [],
                  read_fd = Some (Pipe_rd 0), write_fd = Some (Pipe_wr 1),
                  open_fds = [Pipe_rd 0, Pipe_wr 1], stdin = []\<rparr>])
   \<and> ring_wired 2
        [\<lparr>my_id = 0, g_k = 2, stop_requested = False, child_pids = [101],
          read_fd = Some (Pipe_rd 1), write_fd = Some (Pipe_wr 0),
          open_fds = [Pipe_wr 0, Pipe_rd 1], stdin = []\<rparr>,
         \<lparr>my_id = 1, g_k = 2, stop_requested = False, child_pids = [],
          read_fd = Some (Pipe_rd 0), write_fd = Some (Pipe_wr 1),
          open_fds = [Pipe_rd 0, Pipe_wr 1], stdin = []\<rparr>]
   \<and> (64::int) \<le> MAX_K \<and> fst (scanf_d (''64'' @ [NL])) = Scan_int 64
   \<and> fst (main_startup (''64'' @ [NL]) (\<lambda>j. True) (\<lambda>i. 100 + i))
       = map Sys_pipe [0..63] @ map (\<lambda>i. Sys_fork i (100 + i)) [1..63]
   \<and> ring_wired 64 (processes (snd (main_startup (''64'' @ [NL]) (\<lambda>j. True) (\<lambda>i. 100 + i))))"
proof -
  have k2: "(2::int) \<le> 2" "2 \<le> MAX_K" and k64: "(2::int) \<le> 64" "64 \<le> MAX_K"
    by (simp_all add: MAX_K_def)
  have s2: "fst (scanf_d (''2'' @ [NL])) = Scan_int 2"
    and s64: "fst (scanf_d (''64'' @ [NL])) = Scan_int 64"
    by (simp_all add: scanf_d_def isspace_def isdigit_def digit_val_def to_int_def LONG_MIN_def LONG_MAX_def)
  have p2: "\<forall>j\<in>set [0..(2::int) - 1]. (\<lambda>j. True) j"
    and p64: "\<forall>j\<in>set [0..(64::int) - 1]. (\<lambda>j. True) j" by simp_all
  have f2: "\<forall>i\<in>set [1..(2::int) - 1]. 0 < (\<lambda>i. 100 + i) i"
    and f64: "\<forall>i\<in>set [1..(64::int) - 1]. 0 < (\<lambda>i. 100 + i) i" by simp_all
  have u: "[0..(2::int) - 1] = [0, 1]" "[1..(2::int) - 1] = [1]" by (simp_all add: upto_rec1)
  have u': "[0..(1::int)] = [0, 1]" "[1..(1::int)] = [1]" by (simp_all add: upto_rec1)
  have s: "scanf_d (''2'' @ [NL]) = (Scan_int 2, [NL])"
    by (simp add: scanf_d_def isspace_def isdigit_def digit_val_def to_int_def LONG_MIN_def LONG_MAX_def)
  have m: "main_startup (''2'' @ [NL]) (\<lambda>j. True) (\<lambda>i. 100 + i) =
       ([Sys_pipe 0, Sys_pipe 1, Sys_fork 1 101],
        Ring_up \<lparr>my_id = 0, g_k = 2, stop_requested = False, child_pids = [101],
                 read_fd = Some (Pipe_rd 1), write_fd = Some (Pipe_wr 0),
                 open_fds = [Pipe_wr 0, Pipe_rd 1], stdin = []\<rparr>
                [\<lparr>my_id = 1, g_k = 2, stop_requested = False, child_pids = [],
                  read_fd = Some (Pipe_rd 0), write_fd = Some (Pipe_wr 1),
                  open_fds = [Pipe_rd 0, Pipe_wr 1], stdin = []\<rparr>])"
    unfolding main_startup_valid[OF s k2] u
    by (simp add: skip_line_def all_pipes_def u u' parent_close_unused_def child_close_unused_def
        close_fd_def c_rem_def Let_def)
  have w2: "ring_wired 2 (processes (snd (main_startup (''2'' @ [NL]) (\<lambda>j. True) (\<lambda>i. 100 + i))))"
    using ring_wiring[OF k2 s2 p2 f2] by (rule conjunct2)
  have w64: "fst (main_startup (''64'' @ [NL]) (\<lambda>j. True) (\<lambda>i. 100 + i))
       = map Sys_pipe [0..64 - 1] @ map (\<lambda>i. Sys_fork i (100 + i)) [1..64 - 1]
       \<and> ring_wired 64 (processes (snd (main_startup (''64'' @ [NL]) (\<lambda>j. True) (\<lambda>i. 100 + i))))"
    using ring_wiring[OF k64 s64 p64 f64] .
  have n: "(64::int) - 1 = 63" by simp
  show ?thesis
    using w2 w64 k2 k64 s2 s64 unfolding m n by simp
qed

section \<open>Facts about the shutdown\<close>

lemma reap_all:
  "\<forall>pid\<in>set deaths. 0 < pid \<Longrightarrow> x \<le> 0 \<Longrightarrow>
     reap (deaths @ x # later) = (map Reaped deaths, True)"
  by (induction deaths) auto

lemma reap_blocked:
  "\<forall>pid\<in>set deaths. 0 < pid \<Longrightarrow> reap deaths = (map Reaped deaths, False)"
  by (induction deaths) auto

lemma filter_positive: "\<forall>pid\<in>set pids. (0::int) < pid \<Longrightarrow> filter (\<lambda>pid. pid > 0) pids = pids"
  by (induction pids) auto

lemma dispatch_quit:
  assumes "dest a = DEST_EMPTY" and "fgets 64 inp = Some (l, inp1)"
    and "chomp (cstr l) = ''q'' \<or> chomp (cstr l) = ''Q''"
  shows "node_dispatch 0 k a inp =
           ([Log_returned_empty 0, Prompt_destination (k - 1)], Raise_SIGINT, inp1)"
  using assms by (auto simp: node_dispatch_def Let_def)

lemma node_loop_quit:
  assumes "\<not> stop_requested p" and "\<not> usr1_before e"
    and "read_full (reads e) False sizeof_apple = Some (0, s1, rs)"
    and "node_dispatch (my_id p) (g_k p) (incoming e) (stdin p) = (evs, Raise_SIGINT, inp')"
  shows "node_loop p waits (e # es) = evs @ sigint_parent_handler p waits"
  using assms by simp

lemma main_startup_ring_up:
  assumes "2 \<le> k" and "k \<le> MAX_K" and "scanf_d inp = (Scan_int k, inp1)"
    and "\<forall>j\<in>set [0..k - 1]. pipe_ok j" and "\<forall>i\<in>set [1..k - 1]. 0 < fork_ret i"
  shows "\<exists>cs. main_startup inp pipe_ok fork_ret =
           (map Sys_pipe [0..k - 1] @ map (\<lambda>i. Sys_fork i (fork_ret i)) [1..k - 1],
            Ring_up \<lparr>my_id = 0, g_k = k, stop_requested = False,
                     child_pids = map fork_ret [1..k - 1],
                     read_fd = Some (Pipe_rd (k - 1)), write_fd = Some (Pipe_wr 0),
                     open_fds = parent_close_unused k (all_pipes k),
                     stdin = skip_line inp1\<rparr> cs)
         \<and> map my_id cs = [1..k - 1]"
proof -
  from fork_children_all[OF assms(5), where k = k and inp = "skip_line inp1" and pids = "[]"]
  obtain cs where
    f: "fork_children fork_ret k (skip_line inp1) [] [1..k - 1]
          = (map (\<lambda>i. Sys_fork i (fork_ret i)) [1..k - 1], cs, Some ([] @ map fork_ret [1..k - 1]))"
    and m: "map my_id cs = [1..k - 1]"
    by blast
  have r: "c_rem (k - 1) k = k - 1"
    using c_rem_nonneg[of "k - 1" k] assms(1) by (simp add: zmod_minus1)
  have "main_startup inp pipe_ok fork_ret =
           (map Sys_pipe [0..k - 1] @ map (\<lambda>i. Sys_fork i (fork_ret i)) [1..k - 1],
            Ring_up \<lparr>my_id = 0, g_k = k, stop_requested = False,
                     child_pids = map fork_ret [1..k - 1],
                     read_fd = Some (Pipe_rd (k - 1)), write_fd = Some (Pipe_wr 0),
                     open_fds = parent_close_unused k (all_pipes k),
                     stdin = skip_line inp1\<rparr> cs)"
    unfolding main_startup_valid[OF assms(3,1,2)] make_pipes_all[OF assms(4)] f r by simp
  with m show ?thesis by blast
qed

text \<open>
  Claim C9. The parent holds its two pipe ends and the ids of its children, all
  positive as \<^verbatim>\<open>fork\<close> returned them (this is how \<^verbatim>\<open>main\<close> leaves node 0 of every
  ring it builds, with one id for each of the \<open>k - 1\<close> workers). The calls of \<^verbatim>\<open>wait\<close>
  return the id of one terminated child each and a value that is not positive only once
  no child is left: \<open>deaths\<close> lists the children in the order they are reaped. Then the
  handler of \<^verbatim>\<open>SIGINT\<close> first sends \<^verbatim>\<open>SIGUSR1\<close> to every child, then closes the read
  end and the write end, then reaps every child, and only then exits, with code 0; as
  long as \<^verbatim>\<open>wait\<close> has only returned children, it has not exited. The quit directive
  (\<open>q\<close> or \<open>Q\<close> at the destination prompt, which node 0 only shows for an empty apple)
  runs this same handler right after the prompt.
\<close>

theorem shutdown_order:
  assumes "\<forall>pid\<in>set (child_pids p). 0 < pid"
    and "read_fd p = Some r" and "write_fd p = Some w"
    and "set deaths = set (child_pids p)" and "x \<le> 0"
  shows "sigint_parent_handler p (deaths @ x # later) =
           [Log_caught_ctrl_c] @ map Kill_SIGUSR1 (child_pids p) @ [Close r, Close w]
           @ map Reaped deaths @ [Exit_process 0]
       \<and> sigint_parent_handler p deaths =
           [Log_caught_ctrl_c] @ map Kill_SIGUSR1 (child_pids p) @ [Close r, Close w]
           @ map Reaped deaths
       \<and> (my_id p = 0 \<and> dest (incoming e) = DEST_EMPTY
            \<and> \<not> stop_requested p \<and> \<not> usr1_before e
            \<and> read_full (reads e) False sizeof_apple = Some (0, s1, rs)
            \<and> fgets 64 (stdin p) = Some (l, inp1)
            \<and> (chomp (cstr l) = ''q'' \<or> chomp (cstr l) = ''Q'')
          \<longrightarrow> node_loop p (deaths @ x # later) (e # es) =
                [Log_returned_empty 0, Prompt_destination (g_k p - 1)]
                @ [Log_caught_ctrl_c] @ map Kill_SIGUSR1 (child_pids p) @ [Close r, Close w]
                @ map Reaped deaths @ [Exit_process 0])
       \<and> (2 \<le> k \<and> k \<le> MAX_K \<and> fst (scanf_d inp) = Scan_int k
            \<and> (\<forall>j\<in>set [0..k - 1]. pipe_ok j) \<and> (\<forall>i\<in>set [1..k - 1]. 0 < fork_ret i)
            \<and> processes (snd (main_startup inp pipe_ok fork_ret)) = p0 # cs
          \<longrightarrow> child_pids p0 = map fork_ret [1..k - 1] \<and> map my_id cs = [1..k - 1]
            \<and> (\<forall>pid\<in>set (child_pids p0). 0 < pid)
            \<and> read_fd p0 = Some (Pipe_rd (k - 1)) \<and> write_fd p0 = Some (Pipe_wr 0))"
proof (intro conjI impI)
  have d: "\<forall>pid\<in>set deaths. 0 < pid" using assms(1,4) by simp
  show h: "sigint_parent_handler p (deaths @ x # later) =
           [Log_caught_ctrl_c] @ map Kill_SIGUSR1 (child_pids p) @ [Close r, Close w]
           @ map Reaped deaths @ [Exit_process 0]"
    by (simp add: sigint_parent_handler_def filter_positive[OF assms(1)] assms(2,3)
        reap_all[OF d assms(5)])
  show "sigint_parent_handler p deaths =
           [Log_caught_ctrl_c] @ map Kill_SIGUSR1 (child_pids p) @ [Close r, Close w]
           @ map Reaped deaths"
    by (simp add: sigint_parent_handler_def filter_positive[OF assms(1)] assms(2,3)
        reap_blocked[OF d])
  {
    assume a: "my_id p = 0 \<and> dest (incoming e) = DEST_EMPTY
            \<and> \<not> stop_requested p \<and> \<not> usr1_before e
            \<and> read_full (reads e) False sizeof_apple = Some (0, s1, rs)
            \<and> fgets 64 (stdin p) = Some (l, inp1)
            \<and> (chomp (cstr l) = ''q'' \<or> chomp (cstr l) = ''Q'')"
    then have 0: "my_id p = 0" and 1: "dest (incoming e) = DEST_EMPTY"
      and 2: "\<not> stop_requested p" and 3: "\<not> usr1_before e"
      and 4: "read_full (reads e) False sizeof_apple = Some (0, s1, rs)"
      and 5: "fgets 64 (stdin p) = Some (l, inp1)"
      and 6: "chomp (cstr l) = ''q'' \<or> chomp (cstr l) = ''Q''"
      by simp_all
    have nd: "node_dispatch (my_id p) (g_k p) (incoming e) (stdin p) =
              ([Log_returned_empty 0, Prompt_destination (g_k p - 1)], Raise_SIGINT, inp1)"
      unfolding 0 using dispatch_quit[OF 1 5 6] .
    show "node_loop p (deaths @ x # later) (e # es) =
                [Log_returned_empty 0, Prompt_destination (g_k p - 1)]
                @ [Log_caught_ctrl_c] @ map Kill_SIGUSR1 (child_pids p) @ [Close r, Close w]
                @ map Reaped deaths @ [Exit_process 0]"
      unfolding node_loop_quit[OF 2 3 4 nd] h ..
  }
  assume b: "2 \<le> k \<and> k \<le> MAX_K \<and> fst (scanf_d inp) = Scan_int k
            \<and> (\<forall>j\<in>set [0..k - 1]. pipe_ok j) \<and> (\<forall>i\<in>set [1..k - 1]. 0 < fork_ret i)
            \<and> processes (snd (main_startup inp pipe_ok fork_ret)) = p0 # cs"
  then have k: "2 \<le> k" "k \<le> MAX_K" and sc: "fst (scanf_d inp) = Scan_int k"
    and po: "\<forall>j\<in>set [0..k - 1]. pipe_ok j" and fo: "\<forall>i\<in>set [1..k - 1]. 0 < fork_ret i"
    and pr: "processes (snd (main_startup inp pipe_ok fork_ret)) = p0 # cs"
    by simp_all
  obtain inp' where s: "scanf_d inp = (Scan_int k, inp')"
    using sc by (cases "scanf_d inp") auto
  from main_startup_ring_up[OF k s po fo] obtain cs' where
    ms: "main_startup inp pipe_ok fork_ret =
           (map Sys_pipe [0..k - 1] @ map (\<lambda>i. Sys_fork i (fork_ret i)) [1..k - 1],
            Ring_up \<lparr>my_id = 0, g_k = k, stop_requested = False,
                     child_pids = map fork_ret [1..k - 1],
                     read_fd = Some (Pipe_rd (k - 1)), write_fd = Some (Pipe_wr 0),
                     open_fds = parent_close_unused k (all_pipes k),
                     stdin = skip_line inp'\<rparr> cs')"
    and m: "map my_id cs' = [1..k - 1]"
    by blast
  from pr have p0: "p0 = \<lparr>my_id = 0, g_k = k, stop_requested = False,
                     child_pids = map fork_ret [1..k - 1],
                     read_fd = Some (Pipe_rd (k - 1)), write_fd = Some (Pipe_wr 0),
                     open_fds = parent_close_unused k (all_pipes k),
                     stdin = skip_line inp'\<rparr>" and cs: "cs = cs'"
    unfolding ms by simp_all
  show "child_pids p0 = map fork_ret [1..k - 1]" unfolding p0 by simp
  show "map my_id cs = [1..k - 1]" unfolding cs by (rule m)
  show "\<forall>pid\<in>set (child_pids p0). 0 < pid" unfolding p0 using fo by simp
  show "read_fd p0 = Some (Pipe_rd (k - 1))" unfolding p0 by simp
  show "write_fd p0 = Some (Pipe_wr 0)" unfolding p0 by simp
qed

theorem shutdown_order_witness:
  "sigint_parent_handler
      \<lparr>my_id = 0, g_k = 3, stop_requested = False, child_pids = [101, 102],
        read_fd = Some (Pipe_rd 2), write_fd = Some (Pipe_wr 0),
        open_fds = [Pipe_wr 0, Pipe_rd 2], stdin = ''q'' @ [NL]\<rparr> [102, 101, - 1]
     = [Log_caught_ctrl_c, Kill_SIGUSR1 101, Kill_SIGUSR1 102, Close (Pipe_rd 2),
        Close (Pipe_wr 0), Reaped 102, Reaped 101, Exit_process 0]
   \<and> sigint_parent_handler
      \<lparr>my_id = 0, g_k = 3, stop_requested = False, child_pids = [101, 102],
        read_fd = Some (Pipe_rd 2), write_fd = Some (Pipe_wr 0),
        open_fds = [Pipe_wr 0, Pipe_rd 2], stdin = ''q'' @ [NL]\<rparr> [102, 101]
     = [Log_caught_ctrl_c, Kill_SIGUSR1 101, Kill_SIGUSR1 102, Close (Pipe_rd 2),
        Close (Pipe_wr 0), Reaped 102, Reaped 101]
   \<and> node_loop
      \<lparr>my_id = 0, g_k = 3, stop_requested = False, child_pids = [101, 102],
        read_fd = Some (Pipe_rd 2), write_fd = Some (Pipe_wr 0),
        open_fds = [Pipe_wr 0, Pipe_rd 2], stdin = ''q'' @ [NL]\<rparr> [102, 101, - 1]
      [\<lparr>usr1_before = False, reads = [(False, Ret 1032)], incoming = seed,
        writes = [(False, Ret 1032)]\<rparr>]
     = [Log_returned_empty 0, Prompt_destination 2, Log_caught_ctrl_c, Kill_SIGUSR1 101,
        Kill_SIGUSR1 102, Close (Pipe_rd 2), Close (Pipe_wr 0), Reaped 102, Reaped 101,
        Exit_process 0]
   \<and> processes (snd (main_startup (''3'' @ NL # ''q'' @ [NL]) (\<lambda>j. True) (\<lambda>i. 100 + i)))
     = [\<lparr>my_id = 0, g_k = 3, stop_requested = False, child_pids = [101, 102],
         read_fd = Some (Pipe_rd 2), write_fd = Some (Pipe_wr 0),
         open_fds = [Pipe_wr 0, Pipe_rd 2], stdin = ''q'' @ [NL]\<rparr>,
        \<lparr>my_id = 1, g_k = 3, stop_requested = False, child_pids = [],
         read_fd = Some (Pipe_rd 0), write_fd = Some (Pipe_wr 1),
         open_fds = [Pipe_rd 0, Pipe_wr 1], stdin = ''q'' @ [NL]\<rparr>,
        \<lparr>my_id = 2, g_k = 3, stop_requested = False, child_pids = [101],
         read_fd = Some (Pipe_rd 1), write_fd = Some (Pipe_wr 2),
         open_fds = [Pipe_rd 1, Pipe_wr 2], stdin = ''q'' @ [NL]\<rparr>]"
proof -
  let ?p = "\<lparr>my_id = 0, g_k = 3, stop_requested = False, child_pids = [101, 102],
        read_fd = Some (Pipe_rd 2), write_fd = Some (Pipe_wr 0),
        open_fds = [Pipe_wr 0, Pipe_rd 2], stdin = ''q'' @ [NL]\<rparr>"
  let ?c1 = "\<lparr>my_id = 1, g_k = 3, stop_requested = False, child_pids = [],
         read_fd = Some (Pipe_rd 0), write_fd = Some (Pipe_wr 1),
         open_fds = [Pipe_rd 0, Pipe_wr 1], stdin = ''q'' @ [NL]\<rparr>"
  let ?c2 = "\<lparr>my_id = 2, g_k = 3, stop_requested = False, child_pids = [101],
         read_fd = Some (Pipe_rd 1), write_fd = Some (Pipe_wr 2),
         open_fds = [Pipe_rd 1, Pipe_wr 2], stdin = ''q'' @ [NL]\<rparr>"
  let ?e = "\<lparr>usr1_before = False, reads = [(False, Ret 1032)], incoming = seed,
        writes = [(False, Ret 1032)]\<rparr>"
  have a: "\<forall>pid\<in>set (child_pids ?p). 0 < pid" by simp
  have b: "read_fd ?p = Some (Pipe_rd 2)" "write_fd ?p = Some (Pipe_wr 0)" by simp_all
  have c: "set [102, 101] = set (child_pids ?p)" by auto
  have d: "(- 1 :: int) \<le> 0" by simp
  have r: "read_full (reads ?e) False sizeof_apple = Some (0, False, [])"
    by (simp add: sizeof_apple_def MAX_TEXT_def size_sub_def)
  have f: "fgets 64 (stdin ?p) = Some (''q'' @ [NL], [])"
    using fgets_line[of "''q''" 64 "[]"] by simp
  have q: "chomp (cstr (''q'' @ [NL])) = ''q''" by (simp add: cstr_def chomp_def)
  have e: "dest (incoming ?e) = DEST_EMPTY" by (simp add: seed_def)
  have k: "(2::int) \<le> 3" "3 \<le> MAX_K" by (simp_all add: MAX_K_def)
  have u: "[0..(2::int)] = [0, 1, 2]" "[1..(2::int)] = [1, 2]" by (simp_all add: upto_rec1)
  have s: "scanf_d (''3'' @ NL # ''q'' @ [NL]) = (Scan_int 3, NL # ''q'' @ [NL])"
    by (simp add: scanf_d_def isspace_def isdigit_def digit_val_def to_int_def LONG_MIN_def LONG_MAX_def)
  have m: "main_startup (''3'' @ NL # ''q'' @ [NL]) (\<lambda>j. True) (\<lambda>i. 100 + i) =
       ([Sys_pipe 0, Sys_pipe 1, Sys_pipe 2, Sys_fork 1 101, Sys_fork 2 102],
        Ring_up ?p [?c1, ?c2])"
    unfolding main_startup_valid[OF s k]
    by (simp add: skip_line_def all_pipes_def u parent_close_unused_def child_close_unused_def
        close_fd_def c_rem_def Let_def)
  have pr: "processes (snd (main_startup (''3'' @ NL # ''q'' @ [NL]) (\<lambda>j. True) (\<lambda>i. 100 + i)))
              = ?p # [?c1, ?c2]"
    unfolding m by simp
  show ?thesis
    using shutdown_order[OF a b c d, where later = "[]" and e = "?e" and ?s1.0 = False
        and rs = "[]" and l = "''q'' @ [NL]" and ?inp1.0 = "[]" and es = "[]"
        and k = 3 and inp = "''3'' @ NL # ''q'' @ [NL]" and pipe_ok = "\<lambda>j. True"
        and fork_ret = "\<lambda>i. 100 + i" and ?p0.0 = "?p" and cs = "[?c1, ?c2]"]
      r f q e pr
    by simp
qed

section \<open>Facts about reading the ring size\<close>

lemma to_int_fits: "INT_MIN \<le> v \<Longrightarrow> v \<le> INT_MAX \<Longrightarrow> to_int (max LONG_MIN (min LONG_MAX v)) = v"
  by (simp add: to_int_def INT_MIN_def INT_MAX_def LONG_MIN_def LONG_MAX_def)

lemma scanf_d_blank:
  assumes "\<forall>c\<in>set ws. isspace c"
  shows "scanf_d ws = (Scan_EOF, [])"
proof -
  have "dropWhile isspace ws = []" using assms by simp
  then show ?thesis by (simp add: scanf_d_def)
qed

lemma scanf_d_not_a_number:
  assumes ws: "\<forall>c\<in>set ws. isspace c"
    and c: "\<not> isspace c" "\<not> isdigit c" "c \<noteq> CHR ''-''" "c \<noteq> CHR ''+''"
  shows "scanf_d (ws @ c # t) = (Scan_mismatch, c # t)"
proof -
  have r: "dropWhile isspace (ws @ c # t) = c # t"
    using ws c(1) by (simp add: dropWhile_prefix_stop)
  show ?thesis unfolding scanf_d_def r using c by (simp add: Let_def)
qed

lemma scanf_d_sign_only:
  assumes ws: "\<forall>c\<in>set ws. isspace c" and sg: "sg = ''+'' \<or> sg = ''-''"
    and t: "t = [] \<or> \<not> isdigit (hd t)"
  shows "scanf_d (ws @ sg @ t) = (Scan_mismatch, t)"
proof -
  from sg obtain c where c: "sg = [c]" "c = CHR ''-'' \<or> c = CHR ''+''" by auto
  have nsp: "\<not> isspace c" using c(2) sign_not_isspace by auto
  have r: "dropWhile isspace (ws @ c # t) = c # t"
    using ws nsp by (simp add: dropWhile_prefix_stop)
  have d: "takeWhile isdigit t = []" using t by (cases t) auto
  show ?thesis unfolding c(1) using c(2) r d by (auto simp: scanf_d_def Let_def)
qed

lemma scanf_d_number:
  assumes ws: "\<forall>c\<in>set ws. isspace c" and sg: "sg = [] \<or> sg = ''+'' \<or> sg = ''-''"
    and ds: "\<forall>c\<in>set ds. isdigit c" and ne: "ds \<noteq> []"
    and t: "t = [] \<or> \<not> isdigit (hd t)"
  shows "scanf_d (ws @ sg @ ds @ t) =
           (Scan_int (to_int (max LONG_MIN (min LONG_MAX
                        (if sg = ''-'' then - decimal 0 ds else decimal 0 ds)))), t)"
proof -
  from ne obtain d ds' where dd: "ds = d # ds'" by (cases ds) auto
  with ds have d: "isdigit d" by simp
  have tk: "takeWhile isdigit (ds @ t) = ds" using ds t by (rule takeWhile_prefix_stop)
  have dr: "dropWhile isdigit (ds @ t) = t" using ds t by (rule dropWhile_prefix_stop)
  show ?thesis
  proof (cases "sg = []")
    case True
    have r: "dropWhile isspace (ws @ ds @ t) = ds @ t"
      using ws d dd by (simp add: dropWhile_prefix_stop isdigit_not_isspace)
    have h: "hd (ds @ t) = d" "ds @ t \<noteq> []" using dd by simp_all
    show ?thesis
      unfolding True scanf_d_def using isdigit_not_sign[OF d] ne
      by (simp add: r h tk dr Let_def)
  next
    case False
    with sg obtain c where c: "sg = [c]" "c = CHR ''-'' \<or> c = CHR ''+''" by auto
    have nsp: "\<not> isspace c" using c(2) sign_not_isspace by auto
    have r: "dropWhile isspace (ws @ c # ds @ t) = c # ds @ t"
      using ws nsp by (simp add: dropWhile_prefix_stop)
    show ?thesis
      unfolding c(1) scanf_d_def using c(2) ne
      by (auto simp: r tk dr Let_def)
  qed
qed

lemma main_startup_rejects:
  "fst (scanf_d inp) = Scan_EOF \<or> fst (scanf_d inp) = Scan_mismatch
      \<or> (fst (scanf_d inp) = Scan_int v \<and> (v < 2 \<or> MAX_K < v))
    \<Longrightarrow> main_startup inp pipe_ok fork_ret = ([Log_invalid_k], Returned 1)"
  by (cases "scanf_d inp") (auto simp: main_startup_def)


lemma main_startup_up:
  assumes "2 \<le> k" and "k \<le> MAX_K" and "scanf_d inp = (Scan_int k, inp1)"
    and "\<forall>j\<in>set [0..k - 1]. pipe_ok j" and "\<forall>i\<in>set [1..k - 1]. 0 < fork_ret i"
  shows "fst (main_startup inp pipe_ok fork_ret)
           = map Sys_pipe [0..k - 1] @ map (\<lambda>i. Sys_fork i (fork_ret i)) [1..k - 1]"
    and "map my_id (processes (snd (main_startup inp pipe_ok fork_ret))) = [0..k - 1]"
    and "g_k (hd (processes (snd (main_startup inp pipe_ok fork_ret)))) = k"
proof -
  from main_startup_ring_up[OF assms] obtain cs where
    ms: "main_startup inp pipe_ok fork_ret =
           (map Sys_pipe [0..k - 1] @ map (\<lambda>i. Sys_fork i (fork_ret i)) [1..k - 1],
            Ring_up \<lparr>my_id = 0, g_k = k, stop_requested = False,
                     child_pids = map fork_ret [1..k - 1],
                     read_fd = Some (Pipe_rd (k - 1)), write_fd = Some (Pipe_wr 0),
                     open_fds = parent_close_unused k (all_pipes k),
                     stdin = skip_line inp1\<rparr> cs)"
    and m: "map my_id cs = [1..k - 1]"
    by blast
  show "fst (main_startup inp pipe_ok fork_ret)
           = map Sys_pipe [0..k - 1] @ map (\<lambda>i. Sys_fork i (fork_ret i)) [1..k - 1]"
    unfolding ms by simp
  show "map my_id (processes (snd (main_startup inp pipe_ok fork_ret))) = [0..k - 1]"
    unfolding ms using m assms(1) by (simp add: upto_rec1[of 0 "k - 1"])
  show "g_k (hd (processes (snd (main_startup inp pipe_ok fork_ret)))) = k"
    unfolding ms by simp
qed

text \<open>
  Claim C6, as amended. The ring size is read from the start of the console input, after
  any white space \<open>ws\<close>. When the input ends there (the ring size is missing), when
  the next character starts no number, or when a sign is followed by no digit,
  \<^verbatim>\<open>main\<close> prints that \<open>k\<close> is invalid and returns 1, and this is all it does: no pipe
  is made and no process is forked. When a number stands there (an optional sign and
  the digits \<open>ds\<close>, up to the first character that is not a digit) whose value \<open>v\<close> an
  \<^verbatim>\<open>int\<close> holds, \<^verbatim>\<open>main\<close> does the same for \<open>v\<close> below 2 or above \<open>MAX_K\<close>; for \<open>v\<close>
  in \<open>[2, MAX_K]\<close> it prints no complaint and goes on to make the pipes, and when all
  calls of \<^verbatim>\<open>pipe\<close> and \<^verbatim>\<open>fork\<close> succeed it brings up the ring of the \<open>v\<close> nodes
  \<open>0, \<dots>, v - 1\<close>. What follows the number on the line (\<open>t\<close>) plays no part.
\<close>

theorem ring_size_validation:
  assumes "\<forall>c\<in>set ws. isspace c"
  shows "main_startup ws pipe_ok fork_ret = ([Log_invalid_k], Returned 1)
       \<and> (\<not> isspace c \<and> \<not> isdigit c \<and> c \<noteq> CHR ''-'' \<and> c \<noteq> CHR ''+''
          \<longrightarrow> main_startup (ws @ c # t) pipe_ok fork_ret = ([Log_invalid_k], Returned 1))
       \<and> ((sg = ''+'' \<or> sg = ''-'') \<and> (t = [] \<or> \<not> isdigit (hd t))
          \<longrightarrow> main_startup (ws @ sg @ t) pipe_ok fork_ret = ([Log_invalid_k], Returned 1))
       \<and> ((sg = [] \<or> sg = ''+'' \<or> sg = ''-'') \<and> ds \<noteq> [] \<and> (\<forall>c\<in>set ds. isdigit c)
            \<and> (t = [] \<or> \<not> isdigit (hd t))
            \<and> v = (if sg = ''-'' then - decimal 0 ds else decimal 0 ds)
            \<and> INT_MIN \<le> v \<and> v \<le> INT_MAX
          \<longrightarrow> (v < 2 \<or> MAX_K < v
               \<longrightarrow> main_startup (ws @ sg @ ds @ t) pipe_ok fork_ret
                     = ([Log_invalid_k], Returned 1))
            \<and> (2 \<le> v \<and> v \<le> MAX_K
               \<longrightarrow> Log_invalid_k \<notin> set (fst (main_startup (ws @ sg @ ds @ t) pipe_ok fork_ret))
                 \<and> (pipe_ok 0
                    \<longrightarrow> hd (fst (main_startup (ws @ sg @ ds @ t) pipe_ok fork_ret)) = Sys_pipe 0)
                 \<and> ((\<forall>j\<in>set [0..v - 1]. pipe_ok j) \<and> (\<forall>i\<in>set [1..v - 1]. 0 < fork_ret i)
                    \<longrightarrow> fst (main_startup (ws @ sg @ ds @ t) pipe_ok fork_ret)
                          = map Sys_pipe [0..v - 1]
                            @ map (\<lambda>i. Sys_fork i (fork_ret i)) [1..v - 1]
                      \<and> map my_id (processes (snd (main_startup (ws @ sg @ ds @ t)
                                                      pipe_ok fork_ret))) = [0..v - 1]
                      \<and> g_k (hd (processes (snd (main_startup (ws @ sg @ ds @ t)
                                                    pipe_ok fork_ret)))) = v)))"
proof (intro conjI impI)
  show "main_startup ws pipe_ok fork_ret = ([Log_invalid_k], Returned 1)"
    by (rule main_startup_rejects) (simp add: scanf_d_blank[OF assms])
next
  assume a: "\<not> isspace c \<and> \<not> isdigit c \<and> c \<noteq> CHR ''-'' \<and> c \<noteq> CHR ''+''"
  then have 1: "\<not> isspace c" and 2: "\<not> isdigit c" and 3: "c \<noteq> CHR ''-''"
    and 4: "c \<noteq> CHR ''+''" by simp_all
  show "main_startup (ws @ c # t) pipe_ok fork_ret = ([Log_invalid_k], Returned 1)"
    by (rule main_startup_rejects) (simp add: scanf_d_not_a_number[OF assms 1 2 3 4])
next
  assume a: "(sg = ''+'' \<or> sg = ''-'') \<and> (t = [] \<or> \<not> isdigit (hd t))"
  then have 1: "sg = ''+'' \<or> sg = ''-''" and 2: "t = [] \<or> \<not> isdigit (hd t)"
    by simp_all
  show "main_startup (ws @ sg @ t) pipe_ok fork_ret = ([Log_invalid_k], Returned 1)"
    by (rule main_startup_rejects) (simp add: scanf_d_sign_only[OF assms 1 2])
next
  assume a: "(sg = [] \<or> sg = ''+'' \<or> sg = ''-'') \<and> ds \<noteq> [] \<and> (\<forall>c\<in>set ds. isdigit c)
            \<and> (t = [] \<or> \<not> isdigit (hd t))
            \<and> v = (if sg = ''-'' then - decimal 0 ds else decimal 0 ds)
            \<and> INT_MIN \<le> v \<and> v \<le> INT_MAX"
  from a have 1: "sg = [] \<or> sg = ''+'' \<or> sg = ''-''" by (rule conjunct1)
  from a have 2: "ds \<noteq> []" by simp
  from a have 3: "\<forall>c\<in>set ds. isdigit c" by simp
  from a have 4: "t = [] \<or> \<not> isdigit (hd t)" by simp
  from a have 5: "v = (if sg = ''-'' then - decimal 0 ds else decimal 0 ds)" by simp
  from a have 6: "INT_MIN \<le> v" "v \<le> INT_MAX" by simp_all
  have s: "scanf_d (ws @ sg @ ds @ t) = (Scan_int v, t)"
    unfolding scanf_d_number[OF assms 1 3 2 4] 5[symmetric] to_int_fits[OF 6] ..
  {
    assume "v < 2 \<or> MAX_K < v"
    then show "main_startup (ws @ sg @ ds @ t) pipe_ok fork_ret = ([Log_invalid_k], Returned 1)"
      by (intro main_startup_rejects[where v = v]) (simp add: s)
  }
  assume b: "2 \<le> v \<and> v \<le> MAX_K"
  then have k: "2 \<le> v" "v \<le> MAX_K" by simp_all
  show "Log_invalid_k \<notin> set (fst (main_startup (ws @ sg @ ds @ t) pipe_ok fork_ret))"
    using s k by (rule main_startup_no_complaint)
  {
    assume "pipe_ok 0"
    with s k show "hd (fst (main_startup (ws @ sg @ ds @ t) pipe_ok fork_ret)) = Sys_pipe 0"
      by (rule main_startup_first_pipe)
  }
  assume c: "(\<forall>j\<in>set [0..v - 1]. pipe_ok j) \<and> (\<forall>i\<in>set [1..v - 1]. 0 < fork_ret i)"
  then have po: "\<forall>j\<in>set [0..v - 1]. pipe_ok j" and fo: "\<forall>i\<in>set [1..v - 1]. 0 < fork_ret i"
    by simp_all
  show "fst (main_startup (ws @ sg @ ds @ t) pipe_ok fork_ret)
          = map Sys_pipe [0..v - 1] @ map (\<lambda>i. Sys_fork i (fork_ret i)) [1..v - 1]"
    using k s po fo by (rule main_startup_up(1))
  show "map my_id (processes (snd (main_startup (ws @ sg @ ds @ t) pipe_ok fork_ret)))
          = [0..v - 1]"
    using k s po fo by (rule main_startup_up(2))
  show "g_k (hd (processes (snd (main_startup (ws @ sg @ ds @ t) pipe_ok fork_ret)))) = v"
    using k s po fo by (rule main_startup_up(3))
qed


theorem ring_size_validation_witness:
  "main_startup [] (\<lambda>j. True) (\<lambda>i. 100 + i) = ([Log_invalid_k], Returned 1)
   \<and> main_startup (''abc'' @ [NL]) (\<lambda>j. True) (\<lambda>i. 100 + i) = ([Log_invalid_k], Returned 1)
   \<and> main_startup (''-bc'' @ [NL]) (\<lambda>j. True) (\<lambda>i. 100 + i) = ([Log_invalid_k], Returned 1)
   \<and> main_startup (''-1bc'' @ [NL]) (\<lambda>j. True) (\<lambda>i. 100 + i) = ([Log_invalid_k], Returned 1)
   \<and> main_startup (''  '' @ [NL]) (\<lambda>j. True) (\<lambda>i. 100 + i) = ([Log_invalid_k], Returned 1)
   \<and> main_startup (''  +65'' @ [NL]) (\<lambda>j. True) (\<lambda>i. 100 + i) = ([Log_invalid_k], Returned 1)
   \<and> main_startup (''1'' @ [NL]) (\<lambda>j. True) (\<lambda>i. 100 + i) = ([Log_invalid_k], Returned 1)
   \<and> Log_invalid_k \<notin> set (fst (main_startup (''2.5'' @ [NL]) (\<lambda>j. True) (\<lambda>i. 100 + i)))
   \<and> hd (fst (main_startup (''2.5'' @ [NL]) (\<lambda>j. True) (\<lambda>i. 100 + i))) = Sys_pipe 0
   \<and> fst (main_startup (''2.5'' @ [NL]) (\<lambda>j. True) (\<lambda>i. 100 + i))
       = [Sys_pipe 0, Sys_pipe 1, Sys_fork 1 101]
   \<and> map my_id (processes (snd (main_startup (''2.5'' @ [NL]) (\<lambda>j. True) (\<lambda>i. 100 + i))))
       = [0, 1]
   \<and> g_k (hd (processes (snd (main_startup (''2.5'' @ [NL]) (\<lambda>j. True) (\<lambda>i. 100 + i))))) = 2
   \<and> fst (main_startup (''3abc'' @ [NL]) (\<lambda>j. True) (\<lambda>i. 100 + i))
       = [Sys_pipe 0, Sys_pipe 1, Sys_pipe 2, Sys_fork 1 101, Sys_fork 2 102]
   \<and> map my_id (processes (snd (main_startup (''3abc'' @ [NL]) (\<lambda>j. True) (\<lambda>i. 100 + i))))
       = [0, 1, 2]
   \<and> fst (main_startup (''64'' @ [NL]) (\<lambda>j. True) (\<lambda>i. 100 + i))
       = map Sys_pipe [0..63] @ map (\<lambda>i. Sys_fork i (100 + i)) [1..63]
   \<and> map my_id (processes (snd (main_startup (''64'' @ [NL]) (\<lambda>j. True) (\<lambda>i. 100 + i))))
       = [0..63]"
proof -
  note ev = isspace_def isdigit_def digit_val_def INT_MIN_def INT_MAX_def MAX_K_def
  have u: "[0..(1::int)] = [0, 1]" "[1..(1::int)] = [1]"
    "[0..(2::int)] = [0, 1, 2]" "[1..(2::int)] = [1, 2]"
    by (simp_all add: upto_rec1)
  have a: "main_startup [] (\<lambda>j. True) (\<lambda>i. 100 + i) = ([Log_invalid_k], Returned 1)
     \<and> main_startup (''abc'' @ [NL]) (\<lambda>j. True) (\<lambda>i. 100 + i) = ([Log_invalid_k], Returned 1)
     \<and> main_startup (''-bc'' @ [NL]) (\<lambda>j. True) (\<lambda>i. 100 + i) = ([Log_invalid_k], Returned 1)
     \<and> main_startup (''-1bc'' @ [NL]) (\<lambda>j. True) (\<lambda>i. 100 + i) = ([Log_invalid_k], Returned 1)"
    using ring_size_validation[where ws = "[]" and c = "CHR ''a''" and t = "''bc'' @ [NL]"
        and sg = "''-''" and ds = "''1''" and v = "- 1"
        and pipe_ok = "\<lambda>j. True" and fork_ret = "\<lambda>i. 100 + i"]
    by (simp add: ev)
  have b: "main_startup (''  '' @ [NL]) (\<lambda>j. True) (\<lambda>i. 100 + i) = ([Log_invalid_k], Returned 1)
     \<and> main_startup (''  +65'' @ [NL]) (\<lambda>j. True) (\<lambda>i. 100 + i) = ([Log_invalid_k], Returned 1)"
    using ring_size_validation[where ws = "''  '' @ [NL]" and c = "CHR ''a''" and t = "[]"
        and sg = "''+''" and ds = "''1''" and v = "1"
        and pipe_ok = "\<lambda>j. True" and fork_ret = "\<lambda>i. 100 + i"]
      ring_size_validation[where ws = "''  ''" and c = "CHR ''a''" and t = "[NL]"
        and sg = "''+''" and ds = "''65''" and v = "65"
        and pipe_ok = "\<lambda>j. True" and fork_ret = "\<lambda>i. 100 + i"]
    by (simp add: ev)
  have c: "main_startup (''1'' @ [NL]) (\<lambda>j. True) (\<lambda>i. 100 + i) = ([Log_invalid_k], Returned 1)"
    using ring_size_validation[where ws = "[]" and c = "CHR ''a''" and t = "[NL]"
        and sg = "[]" and ds = "''1''" and v = "1"
        and pipe_ok = "\<lambda>j. True" and fork_ret = "\<lambda>i. 100 + i"]
    by (simp add: ev)
  have d: "Log_invalid_k \<notin> set (fst (main_startup (''2.5'' @ [NL]) (\<lambda>j. True) (\<lambda>i. 100 + i)))
     \<and> hd (fst (main_startup (''2.5'' @ [NL]) (\<lambda>j. True) (\<lambda>i. 100 + i))) = Sys_pipe 0
     \<and> fst (main_startup (''2.5'' @ [NL]) (\<lambda>j. True) (\<lambda>i. 100 + i))
         = [Sys_pipe 0, Sys_pipe 1, Sys_fork 1 101]
     \<and> map my_id (processes (snd (main_startup (''2.5'' @ [NL]) (\<lambda>j. True) (\<lambda>i. 100 + i))))
         = [0, 1]
     \<and> g_k (hd (processes (snd (main_startup (''2.5'' @ [NL]) (\<lambda>j. True) (\<lambda>i. 100 + i))))) = 2"
    using ring_size_validation[where ws = "[]" and c = "CHR ''a''" and t = "''.5'' @ [NL]"
        and sg = "[]" and ds = "''2''" and v = "2"
        and pipe_ok = "\<lambda>j. True" and fork_ret = "\<lambda>i. 100 + i"]
    by (simp add: ev u)
  have e: "fst (main_startup (''3abc'' @ [NL]) (\<lambda>j. True) (\<lambda>i. 100 + i))
         = [Sys_pipe 0, Sys_pipe 1, Sys_pipe 2, Sys_fork 1 101, Sys_fork 2 102]
     \<and> map my_id (processes (snd (main_startup (''3abc'' @ [NL]) (\<lambda>j. True) (\<lambda>i. 100 + i))))
         = [0, 1, 2]"
    using ring_size_validation[where ws = "[]" and c = "CHR ''a''" and t = "''abc'' @ [NL]"
        and sg = "[]" and ds = "''3''" and v = "3"
        and pipe_ok = "\<lambda>j. True" and fork_ret = "\<lambda>i. 100 + i"]
    by (simp add: ev u)
  have f: "fst (main_startup (''64'' @ [NL]) (\<lambda>j. True) (\<lambda>i. 100 + i))
         = map Sys_pipe [0..63] @ map (\<lambda>i. Sys_fork i (100 + i)) [1..63]
     \<and> map my_id (processes (snd (main_startup (''64'' @ [NL]) (\<lambda>j. True) (\<lambda>i. 100 + i))))
         = [0..63]"
    using ring_size_validation[where ws = "[]" and c = "CHR ''a''" and t = "[NL]"
        and sg = "[]" and ds = "''64''" and v = "64"
        and pipe_ok = "\<lambda>j. True" and fork_ret = "\<lambda>i. 100 + i"]
    by (simp add: ev)
  from a b c d e f show ?thesis by simp
qed

text \<open>
  The counterexample to claim C6 as it stands. The input lines \<^verbatim>\<open>2.5\<close> and \<^verbatim>\<open>3abc\<close> are
  no integers, and \<^verbatim>\<open>4294967298\<close> lies outside \<open>[2, MAX_K]\<close>; yet \<^verbatim>\<open>main\<close> prints no
  complaint for any of them and brings up a ring, of 2, 3 and 2 nodes: \<^verbatim>\<open>scanf("%d")\<close>
  converts the digits at the start of the line and leaves the rest, which \<^verbatim>\<open>main\<close> then
  discards, and it stores a number that no \<^verbatim>\<open>int\<close> holds reduced modulo \<open>2 ^ 32\<close>.
\<close>

theorem ring_size_counterexample:
  "main_startup (''2.5'' @ [NL]) (\<lambda>j. True) (\<lambda>i. 100 + i) =
       ([Sys_pipe 0, Sys_pipe 1, Sys_fork 1 101],
        Ring_up \<lparr>my_id = 0, g_k = 2, stop_requested = False, child_pids = [101],
                 read_fd = Some (Pipe_rd 1), write_fd = Some (Pipe_wr 0),
                 open_fds = [Pipe_wr 0, Pipe_rd 1], stdin = []\<rparr>
                [\<lparr>my_id = 1, g_k = 2, stop_requested = False, child_pids = [],
                  read_fd = Some (Pipe_rd 0), write_fd = Some (Pipe_wr 1),
                  open_fds = [Pipe_rd 0, Pipe_wr 1], stdin = []\<rparr>])
   \<and> fst (main_startup (''3abc'' @ [NL]) (\<lambda>j. True) (\<lambda>i. 100 + i))
       = [Sys_pipe 0, Sys_pipe 1, Sys_pipe 2, Sys_fork 1 101, Sys_fork 2 102]
   \<and> main_startup (''4294967298'' @ [NL]) (\<lambda>j. True) (\<lambda>i. 100 + i) =
       ([Sys_pipe 0, Sys_pipe 1, Sys_fork 1 101],
        Ring_up \<lparr>my_id = 0, g_k = 2, stop_requested = False, child_pids = [101],
                 read_fd = Some (Pipe_rd 1), write_fd = Some (Pipe_wr 0),
                 open_fds = [Pipe_wr 0, Pipe_rd 1], stdin = []\<rparr>
                [\<lparr>my_id = 1, g_k = 2, stop_requested = False, child_pids = [],
                  read_fd = Some (Pipe_rd 0), write_fd = Some (Pipe_wr 1),
                  open_fds = [Pipe_rd 0, Pipe_wr 1], stdin = []\<rparr>])"
proof -
  note ev = scanf_d_def isspace_def isdigit_def digit_val_def to_int_def LONG_MIN_def LONG_MAX_def
  have k2: "(2::int) \<le> 2" "2 \<le> MAX_K" and k3: "(2::int) \<le> 3" "3 \<le> MAX_K"
    by (simp_all add: MAX_K_def)
  have u: "[0..(2::int) - 1] = [0, 1]" "[1..(2::int) - 1] = [1]"
    "[0..(3::int) - 1] = [0, 1, 2]" "[1..(3::int) - 1] = [1, 2]"
    by (simp_all add: upto_rec1)
  have u': "[0..(1::int)] = [0, 1]" "[1..(1::int)] = [1]" by (simp_all add: upto_rec1)
  have s1: "scanf_d (''2.5'' @ [NL]) = (Scan_int 2, ''.5'' @ [NL])"
    and s2: "scanf_d (''3abc'' @ [NL]) = (Scan_int 3, ''abc'' @ [NL])"
    and s3: "scanf_d (''4294967298'' @ [NL]) = (Scan_int 2, [NL])"
    by (simp_all add: ev)
  have m1: "main_startup (''2.5'' @ [NL]) (\<lambda>j. True) (\<lambda>i. 100 + i) =
       ([Sys_pipe 0, Sys_pipe 1, Sys_fork 1 101],
        Ring_up \<lparr>my_id = 0, g_k = 2, stop_requested = False, child_pids = [101],
                 read_fd = Some (Pipe_rd 1), write_fd = Some (Pipe_wr 0),
                 open_fds = [Pipe_wr 0, Pipe_rd 1], stdin = []\<rparr>
                [\<lparr>my_id = 1, g_k = 2, stop_requested = False, child_pids = [],
                  read_fd = Some (Pipe_rd 0), write_fd = Some (Pipe_wr 1),
                  open_fds = [Pipe_rd 0, Pipe_wr 1], stdin = []\<rparr>])"
    unfolding main_startup_valid[OF s1 k2] u
    by (simp add: skip_line_def all_pipes_def u u' parent_close_unused_def child_close_unused_def
        close_fd_def c_rem_def Let_def)
  have m2: "fst (main_startup (''3abc'' @ [NL]) (\<lambda>j. True) (\<lambda>i. 100 + i))
       = [Sys_pipe 0, Sys_pipe 1, Sys_pipe 2, Sys_fork 1 101, Sys_fork 2 102]"
    unfolding main_startup_valid[OF s2 k3] u by simp
  have m3: "main_startup (''4294967298'' @ [NL]) (\<lambda>j. True) (\<lambda>i. 100 + i) =
       ([Sys_pipe 0, Sys_pipe 1, Sys_fork 1 101],
        Ring_up \<lparr>my_id = 0, g_k = 2, stop_requested = False, child_pids = [101],
                 read_fd = Some (Pipe_rd 1), write_fd = Some (Pipe_wr 0),
                 open_fds = [Pipe_wr 0, Pipe_rd 1], stdin = []\<rparr>
                [\<lparr>my_id = 1, g_k = 2, stop_requested = False, child_pids = [],
                  read_fd = Some (Pipe_rd 0), write_fd = Some (Pipe_wr 1),
                  open_fds = [Pipe_rd 0, Pipe_wr 1], stdin = []\<rparr>])"
    unfolding main_startup_valid[OF s3 k2] u
    by (simp add: skip_line_def all_pipes_def u u' parent_close_unused_def child_close_unused_def
        close_fd_def c_rem_def Let_def)
  from m1 m2 m3 show ?thesis by simp
qed

end
